theory Spec2Isabelle
  imports Complex_Main "HOL-Library.Word"
begin

section \<open>The Ready Trader Go autotrader (autotrader.cc, autotrader.h)\<close>

text \<open>
  A shallow embedding of the market-making autotrader: the sliding-window message
  tracker, the per-side order registries (an ordered price set and two hash maps of
  \<open>Order*\<close>), and the callbacks \<open>OrderBookMessageHandler\<close>,
  \<open>OrderFilledMessageHandler\<close>, \<open>OrderStatusMessageHandler\<close> and
  \<open>ErrorMessageHandler\<close>.

  Machine integers are words: \<open>unsigned long\<close> and \<open>long\<close> are 64 bits wide,
  \<open>unsigned int\<close> and \<open>int\<close> are 32 bits wide. A \<open>long\<close> is a 64-bit word read
  through \<open>sint\<close>; signed overflow wraps.
\<close>

type_synonym ulong = "64 word"
type_synonym long = "64 word"
type_synonym ptime = int
type_synonym addr = nat

subsection \<open>Constants of autotrader.h\<close>

definition LOT_SIZE :: nat where "LOT_SIZE = 10"
definition POSITION_LIMIT :: int where "POSITION_LIMIT = 100"
definition TICK_SIZE_IN_CENTS :: nat where "TICK_SIZE_IN_CENTS = 100"
definition NUM_CLONES :: nat where "NUM_CLONES = 3"
definition ADDITIONAL_SPREAD :: ulong where "ADDITIONAL_SPREAD = of_nat (1 * TICK_SIZE_IN_CENTS)"
definition MAX_MESSAGE_FREQ :: nat where "MAX_MESSAGE_FREQ = 50"

text \<open>
  \<open>MIN_BID_NEAREST_TICK\<close> and \<open>MAX_ASK_NEAREST_TICK\<close> are computed from the exchange's
  \<open>ReadyTraderGo::MINIMUM_BID\<close> and \<open>ReadyTraderGo::MAXIMUM_ASK\<close>, which the
  library header declares; they are parameters here (prices in cents, not negative).
\<close>

definition MIN_BID_NEAREST_TICK :: "nat \<Rightarrow> nat" where
  "MIN_BID_NEAREST_TICK MINIMUM_BID =
     (MINIMUM_BID + TICK_SIZE_IN_CENTS) div TICK_SIZE_IN_CENTS * TICK_SIZE_IN_CENTS"

definition MAX_ASK_NEAREST_TICK :: "nat \<Rightarrow> nat" where
  "MAX_ASK_NEAREST_TICK MAXIMUM_ASK = MAXIMUM_ASK div TICK_SIZE_IN_CENTS * TICK_SIZE_IN_CENTS"

text \<open>Conversion to \<open>unsigned int\<close> and back to \<open>unsigned long\<close>: the low 32 bits.\<close>

definition to_uint :: "ulong \<Rightarrow> ulong" where
  "to_uint x = ucast (ucast x :: 32 word)"

subsection \<open>MessageFrequencyTracker\<close>

text \<open>
  \<open>mMem\<close> is the array of \<open>16 * MAX_MESSAGE_FREQ\<close> timestamps; the iterators
  \<open>mHead\<close> and \<open>mTail\<close> are indices into it. A \<open>ptime\<close> is a number of
  microseconds, and \<open>PeriodLength\<close> is one second.
\<close>

record MessageFrequencyTracker =
  mMem :: "ptime list"
  mHead :: nat
  mTail :: nat
  mRollingMessageCount :: ulong

definition PeriodLength :: int where "PeriodLength = 1000000"

definition new_tracker :: MessageFrequencyTracker where
  "new_tracker = \<lparr> mMem = replicate (16 * MAX_MESSAGE_FREQ) 0, mHead = 0, mTail = 0,
                   mRollingMessageCount = 0 \<rparr>"

text \<open>
  The loop "remove timed out messages" of both member functions. The iterators of the
  program always point into the array; the loop of the model stops if they do not.
\<close>

function remove_timed_out :: "ptime \<Rightarrow> MessageFrequencyTracker \<Rightarrow> MessageFrequencyTracker" where
  "remove_timed_out currentTime t =
     (if mHead t \<noteq> mTail t \<and> mHead t < length (mMem t) \<and> mTail t < length (mMem t)
         \<and> currentTime - mMem t ! mHead t > PeriodLength
      then remove_timed_out currentTime
             (t\<lparr> mRollingMessageCount := mRollingMessageCount t - 1,
                 mHead := (if mHead t + 1 = length (mMem t) then 0 else mHead t + 1) \<rparr>)
      else t)"
  by pat_completeness auto
termination
proof (relation "measure (\<lambda>(c, t). (mTail t + length (mMem t) - mHead t) mod length (mMem t))",
       goal_cases)
  case 1
  show ?case by simp
next
  case (2 currentTime t)
  let ?n = "length (mMem t)"
  from 2 have h: "mHead t < ?n" and tl: "mTail t < ?n" and ne: "mHead t \<noteq> mTail t"
    by simp_all
  show ?case
  proof (cases "mHead t < mTail t")
    case True
    then have a: "(mTail t + ?n - mHead t) mod ?n = mTail t - mHead t"
      using tl by (simp add: mod_if)
    from True tl have b: "mHead t + 1 \<noteq> ?n" by simp
    have c: "(mTail t + ?n - (mHead t + 1)) mod ?n = mTail t - (mHead t + 1)"
      using True tl by (simp add: mod_if)
    show ?thesis using a b c True by simp
  next
    case False
    with ne have gt: "mTail t < mHead t" by simp
    then have a: "(mTail t + ?n - mHead t) mod ?n = mTail t + ?n - mHead t"
      using h by simp
    show ?thesis
    proof (cases "mHead t + 1 = ?n")
      case True
      then show ?thesis using a gt tl by simp
    next
      case False
      then have "(mTail t + ?n - (mHead t + 1)) mod ?n = mTail t + ?n - (mHead t + 1)"
        using gt h by simp
      then show ?thesis using a False gt h by simp
    qed
  qed
qed

declare remove_timed_out.simps [simp del]

text \<open>
  \<open>NoteMessage\<close> returns the tracker and the time the caller sleeps
  (\<open>boost::this_thread::sleep(wait_for)\<close>), zero when it does not.
\<close>

definition NoteMessage :: "ptime \<Rightarrow> MessageFrequencyTracker \<Rightarrow> MessageFrequencyTracker \<times> int" where
  "NoteMessage currentTime t =
     (let t1 = t\<lparr> mMem := (mMem t)[mTail t := currentTime],
                  mTail := mTail t + 1,
                  mRollingMessageCount := mRollingMessageCount t + 1 \<rparr>;
          t2 = (if mTail t1 = length (mMem t1) then t1\<lparr> mTail := 0 \<rparr> else t1);
          t3 = remove_timed_out currentTime t2
      in if mRollingMessageCount t3 > of_nat MAX_MESSAGE_FREQ
         then (t3, currentTime - mMem t3 ! mHead t3 + 100000)
         else (t3, 0))"

text \<open>
  The arithmetic of \<open>GetNonCancelMessagesAllowed\<close> is on \<open>unsigned long\<close>; the result
  is converted to \<open>int\<close> (the low 32 bits, read as two's complement).
\<close>

definition safetyMargin :: ulong where "safetyMargin = 0"
definition maxOpenOrders :: ulong where "maxOpenOrders = of_nat (2 * NUM_CLONES)"

definition GetNonCancelMessagesAllowed ::
  "ptime \<Rightarrow> MessageFrequencyTracker \<Rightarrow> MessageFrequencyTracker \<times> int" where
  "GetNonCancelMessagesAllowed currentTime t =
     (let t1 = remove_timed_out currentTime t;
          freeMessages = (of_nat MAX_MESSAGE_FREQ :: ulong) - mRollingMessageCount t1
      in (t1, sint (ucast (max (0 :: ulong)
                             ((freeMessages - maxOpenOrders - safetyMargin) div 2)) :: 32 word)))"

text \<open>A burst: \<open>n\<close> calls of \<open>NoteMessage\<close> at the same instant.\<close>

primrec note_messages :: "nat \<Rightarrow> ptime \<Rightarrow> MessageFrequencyTracker \<Rightarrow> MessageFrequencyTracker" where
  "note_messages 0 currentTime t = t"
| "note_messages (Suc n) currentTime t = fst (NoteMessage currentTime (note_messages n currentTime t))"

subsection \<open>Orders, outbound commands and the state of the AutoTrader\<close>

record Order =
  price :: ulong
  volume :: ulong
  orderId :: ulong

datatype Instrument = FUTURE | ETF
datatype Side = SELL | BUY
datatype Lifespan = FILL_AND_KILL | GOOD_FOR_DAY

text \<open>What \<open>BaseAutoTrader\<close> is asked to put on the wire.\<close>

datatype command =
    InsertOrder ulong Side ulong ulong Lifespan
  | CancelOrder ulong
  | AmendOrder ulong ulong
  | HedgeOrder ulong Side ulong ulong

text \<open>
  The members of \<open>AutoTrader\<close>. A \<open>std::set<unsigned long>\<close> is the ascending list of
  its elements; a \<open>std::unordered_map<unsigned long, Order*>\<close> is a map to addresses,
  where address 0 is \<open>nullptr\<close>; \<open>heap\<close> holds the \<open>Order\<close> objects made by
  \<open>new\<close> and not yet deleted, \<open>next_addr\<close> is the address the next \<open>new\<close> returns.
  \<open>clock\<close> is what \<open>microsec_clock::universal_time()\<close> reads, and \<open>sent\<close> the
  commands handed to \<open>BaseAutoTrader\<close> so far, oldest first.
\<close>

record AutoTrader =
  mNextMessageId :: ulong
  mPosition :: long
  mBidPrices :: "ulong list"
  mAskPrices :: "ulong list"
  mBidToOrder :: "ulong \<rightharpoonup> addr"
  mBidOrderIdToOrder :: "ulong \<rightharpoonup> addr"
  mAskToOrder :: "ulong \<rightharpoonup> addr"
  mAskOrderIdToOrder :: "ulong \<rightharpoonup> addr"
  mMessageTracker :: MessageFrequencyTracker
  heap :: "addr \<rightharpoonup> Order"
  next_addr :: addr
  clock :: ptime
  sent :: "command list"

definition new_AutoTrader :: AutoTrader where
  "new_AutoTrader =
     \<lparr> mNextMessageId = 1, mPosition = 0, mBidPrices = [], mAskPrices = [],
       mBidToOrder = Map.empty, mBidOrderIdToOrder = Map.empty,
       mAskToOrder = Map.empty, mAskOrderIdToOrder = Map.empty,
       mMessageTracker = new_tracker, heap = Map.empty, next_addr = 1,
       clock = 0, sent = [] \<rparr>"

text \<open>\<open>std::set::emplace\<close> and \<open>std::set::erase\<close> on the ascending list.\<close>

definition set_emplace :: "ulong \<Rightarrow> ulong list \<Rightarrow> ulong list" where
  "set_emplace x xs = (if x \<in> set xs then xs else insort x xs)"

definition set_erase :: "ulong \<Rightarrow> ulong list \<Rightarrow> ulong list" where
  "set_erase x xs = removeAll x xs"

text \<open>\<open>m[k]\<close> of an \<open>unordered_map\<close>: a missing key is added with the value \<open>nullptr\<close>.\<close>

definition map_index :: "(ulong \<rightharpoonup> addr) \<Rightarrow> ulong \<Rightarrow> (ulong \<rightharpoonup> addr) \<times> addr" where
  "map_index m k = (case m k of None \<Rightarrow> (m(k \<mapsto> 0), 0) | Some p \<Rightarrow> (m, p))"

text \<open>
  \<open>order->field\<close>: reading through \<open>nullptr\<close> or through a deleted pointer is
  undefined behaviour, the value \<open>None\<close> of every handler below.
\<close>

definition deref :: "(addr \<rightharpoonup> Order) \<Rightarrow> addr \<Rightarrow> Order option" where
  "deref h p = (if p = 0 then None else h p)"

subsection \<open>The Send overrides: account the message, then send it\<close>

definition note_message :: "AutoTrader \<Rightarrow> AutoTrader" where
  "note_message s =
     (case NoteMessage (clock s) (mMessageTracker s) of
        (t, wait_for) \<Rightarrow> s\<lparr> mMessageTracker := t, clock := clock s + wait_for \<rparr>)"

definition send :: "command \<Rightarrow> AutoTrader \<Rightarrow> AutoTrader" where
  "send c s = (let s1 = note_message s in s1\<lparr> sent := sent s1 @ [c] \<rparr>)"

definition SendAmendOrder :: "ulong \<Rightarrow> ulong \<Rightarrow> AutoTrader \<Rightarrow> AutoTrader" where
  "SendAmendOrder clientOrderId vol s = send (AmendOrder clientOrderId vol) s"

definition SendCancelOrder :: "ulong \<Rightarrow> AutoTrader \<Rightarrow> AutoTrader" where
  "SendCancelOrder clientOrderId s = send (CancelOrder clientOrderId) s"

definition SendHedgeOrder :: "ulong \<Rightarrow> Side \<Rightarrow> ulong \<Rightarrow> ulong \<Rightarrow> AutoTrader \<Rightarrow> AutoTrader" where
  "SendHedgeOrder clientOrderId side prc vol s = send (HedgeOrder clientOrderId side prc vol) s"

definition SendInsertOrder ::
  "ulong \<Rightarrow> Side \<Rightarrow> ulong \<Rightarrow> ulong \<Rightarrow> Lifespan \<Rightarrow> AutoTrader \<Rightarrow> AutoTrader" where
  "SendInsertOrder clientOrderId side prc vol lifespan s =
     send (InsertOrder clientOrderId side prc vol lifespan) s"

subsection \<open>OrderBookMessageHandler\<close>

text \<open>"Get out of bad orders right away": the two loops over \<open>mBidPrices\<close> and \<open>mAskPrices\<close>.\<close>

fun cancel_arbitragable_bids :: "ulong \<Rightarrow> ulong list \<Rightarrow> AutoTrader \<Rightarrow> AutoTrader option" where
  "cancel_arbitragable_bids bestAskFut [] s = Some s"
| "cancel_arbitragable_bids bestAskFut (prc # rest) s =
     (if bestAskFut < prc then
        (case map_index (mBidToOrder s) prc of (m, p) \<Rightarrow>
           (case deref (heap s) p of
              None \<Rightarrow> None
            | Some order \<Rightarrow>
                cancel_arbitragable_bids bestAskFut rest
                  (SendCancelOrder (to_uint (orderId order)) (s\<lparr> mBidToOrder := m \<rparr>))))
      else cancel_arbitragable_bids bestAskFut rest s)"

fun cancel_arbitragable_asks :: "ulong \<Rightarrow> ulong list \<Rightarrow> AutoTrader \<Rightarrow> AutoTrader option" where
  "cancel_arbitragable_asks bestBidFut [] s = Some s"
| "cancel_arbitragable_asks bestBidFut (prc # rest) s =
     (if bestBidFut > prc then
        (case map_index (mAskToOrder s) prc of (m, p) \<Rightarrow>
           (case deref (heap s) p of
              None \<Rightarrow> None
            | Some order \<Rightarrow>
                cancel_arbitragable_asks bestBidFut rest
                  (SendCancelOrder (to_uint (orderId order)) (s\<lparr> mAskToOrder := m \<rparr>))))
      else cancel_arbitragable_asks bestBidFut rest s)"

text \<open>
  The price adjustment. \<open>round_lots x\<close> is \<open>round((double)x * centsPerImbalancedShare)\<close>
  with \<open>centsPerImbalancedShare = 1.0 / LOT_SIZE\<close>: the integer nearest to
  \<open>x / LOT_SIZE\<close>, halves away from zero. The conversion \<open>(int)\<close> of a value outside
  the range of \<open>int\<close> is undefined behaviour (\<open>None\<close>), and so is negating the
  least \<open>int\<close>; the negated \<open>int\<close> is sign-extended to \<open>unsigned long\<close> and
  multiplied there.
\<close>

definition minPositionImbalance :: int where "minPositionImbalance = 50"

definition round_lots :: "int \<Rightarrow> int" where
  "round_lots x =
     (if 0 \<le> x then (2 * x + int LOT_SIZE) div (2 * int LOT_SIZE)
      else - ((2 * (- x) + int LOT_SIZE) div (2 * int LOT_SIZE)))"

definition to_int :: "int \<Rightarrow> 32 word option" where
  "to_int r = (if - (2 ^ 31) \<le> r \<and> r < 2 ^ 31 then Some (word_of_int r) else None)"

definition neg_int :: "32 word option \<Rightarrow> 32 word option" where
  "neg_int a = (case a of None \<Rightarrow> None
                | Some x \<Rightarrow> if sint x = - (2 ^ 31) then None else Some (- x))"

definition priceAdjustment_of :: "long \<Rightarrow> ulong option" where
  "priceAdjustment_of pos =
     (case (if sint pos \<ge> minPositionImbalance
            then neg_int (to_int (round_lots (sint pos - minPositionImbalance)))
            else if sint pos \<le> - minPositionImbalance
            then neg_int (to_int (round_lots (sint pos + minPositionImbalance)))
            else Some 0) of
        None \<Rightarrow> None
      | Some a \<Rightarrow> Some ((scast a :: ulong) * of_nat TICK_SIZE_IN_CENTS))"

text \<open>The front of the own book on each side.\<close>

definition frontBid_of :: "ulong \<Rightarrow> ulong \<Rightarrow> ulong \<Rightarrow> ulong" where
  "frontBid_of bestBidFut bestAskFut priceAdjustment =
     min (bestBidFut + priceAdjustment - ADDITIONAL_SPREAD) bestAskFut"

definition frontAsk_of :: "ulong \<Rightarrow> ulong \<Rightarrow> ulong \<Rightarrow> ulong" where
  "frontAsk_of bestBidFut bestAskFut priceAdjustment =
     max (bestAskFut + priceAdjustment + ADDITIONAL_SPREAD) bestBidFut"

text \<open>
  The loop that marks orders too far away for cancellation and counts the volume. The loop
  variable is an \<open>unsigned int\<close>; the state carries \<open>maximumBidSize\<close> along.
\<close>

fun scan_bids :: "ulong \<Rightarrow> ulong list \<Rightarrow> AutoTrader \<times> long \<Rightarrow> (AutoTrader \<times> long) option" where
  "scan_bids frontBid [] (s, maximumBidSize) = Some (s, maximumBidSize)"
| "scan_bids frontBid (x # rest) (s, maximumBidSize) =
     (let prc = to_uint x in
      case map_index (mBidToOrder s) prc of (m, p) \<Rightarrow>
        (if p = 0 then scan_bids frontBid rest (s\<lparr> mBidToOrder := m \<rparr>, maximumBidSize)
         else case heap s p of
           None \<Rightarrow> None
         | Some order \<Rightarrow>
             (if prc > frontBid \<or> prc \<le> frontBid - of_nat (NUM_CLONES * TICK_SIZE_IN_CENTS)
              then scan_bids frontBid rest
                     (SendCancelOrder (orderId order) (s\<lparr> mBidToOrder := m \<rparr>),
                      maximumBidSize - volume order)
              else scan_bids frontBid rest
                     (s\<lparr> mBidToOrder := m \<rparr>, maximumBidSize - volume order))))"

fun scan_asks :: "ulong \<Rightarrow> ulong list \<Rightarrow> AutoTrader \<times> long \<Rightarrow> (AutoTrader \<times> long) option" where
  "scan_asks frontAsk [] (s, maximumAskSize) = Some (s, maximumAskSize)"
| "scan_asks frontAsk (x # rest) (s, maximumAskSize) =
     (let prc = to_uint x in
      case map_index (mAskToOrder s) prc of (m, p) \<Rightarrow>
        (if p = 0 then scan_asks frontAsk rest (s\<lparr> mAskToOrder := m \<rparr>, maximumAskSize)
         else case heap s p of
           None \<Rightarrow> None
         | Some order \<Rightarrow>
             (if prc < frontAsk \<or> prc \<ge> frontAsk + of_nat (NUM_CLONES * TICK_SIZE_IN_CENTS)
              then scan_asks frontAsk rest
                     (SendCancelOrder (orderId order) (s\<lparr> mAskToOrder := m \<rparr>),
                      maximumAskSize - volume order)
              else scan_asks frontAsk rest
                     (s\<lparr> mAskToOrder := m \<rparr>, maximumAskSize - volume order))))"

text \<open>
  The loop that fills the ladder, nearest level first. \<open>offset\<close> counts up to
  \<open>NUM_CLONES\<close>; \<open>numNewOrdersAllowed\<close> is the \<open>int\<close> shared by both sides.
  \<open>place_bid\<close> and \<open>place_ask\<close> are the body of \<open>if (mBidPrices.count(price) == 0)\<close>
  up to the new \<open>Order\<close> filed in the three views; the loop then takes the volume off
  the maximum size and one off the budget.
\<close>

definition new_order_volume :: "long \<Rightarrow> ulong" where
  "new_order_volume maximumSize =
     to_uint (if sint maximumSize < sint (of_nat LOT_SIZE :: long) then maximumSize
              else of_nat LOT_SIZE)"

definition place_bid :: "ulong \<Rightarrow> long \<Rightarrow> AutoTrader \<Rightarrow> AutoTrader" where
  "place_bid prc maximumBidSize s =
     (let vol = new_order_volume maximumBidSize;
          oid = to_uint (mNextMessageId s);
          s1 = s\<lparr> mNextMessageId := mNextMessageId s + 1 \<rparr>;
          s2 = SendInsertOrder oid BUY prc vol GOOD_FOR_DAY s1;
          order = next_addr s2
      in s2\<lparr> heap := (heap s2)(order \<mapsto> \<lparr> price = prc, volume = vol, orderId = oid \<rparr>),
              next_addr := order + 1,
              mBidPrices := set_emplace prc (mBidPrices s2),
              mBidToOrder := (mBidToOrder s2)(prc \<mapsto> order),
              mBidOrderIdToOrder := (mBidOrderIdToOrder s2)(oid \<mapsto> order) \<rparr>)"

definition place_ask :: "ulong \<Rightarrow> long \<Rightarrow> AutoTrader \<Rightarrow> AutoTrader" where
  "place_ask prc maximumAskSize s =
     (let vol = new_order_volume maximumAskSize;
          oid = to_uint (mNextMessageId s);
          s1 = s\<lparr> mNextMessageId := mNextMessageId s + 1 \<rparr>;
          s2 = SendInsertOrder oid SELL prc vol GOOD_FOR_DAY s1;
          order = next_addr s2
      in s2\<lparr> heap := (heap s2)(order \<mapsto> \<lparr> price = prc, volume = vol, orderId = oid \<rparr>),
              next_addr := order + 1,
              mAskPrices := set_emplace prc (mAskPrices s2),
              mAskToOrder := (mAskToOrder s2)(prc \<mapsto> order),
              mAskOrderIdToOrder := (mAskOrderIdToOrder s2)(oid \<mapsto> order) \<rparr>)"

function insert_bids ::
  "ulong \<Rightarrow> nat \<Rightarrow> long \<Rightarrow> int \<Rightarrow> AutoTrader \<Rightarrow> AutoTrader \<times> long \<times> int" where
  "insert_bids frontBid offset maximumBidSize numNewOrdersAllowed s =
     (if offset < NUM_CLONES \<and> sint maximumBidSize > 0 \<and> numNewOrdersAllowed > 0 then
        (let prc = to_uint (frontBid - of_nat (offset * TICK_SIZE_IN_CENTS)) in
         if prc \<notin> set (mBidPrices s) then
           insert_bids frontBid (offset + 1)
             (maximumBidSize - new_order_volume maximumBidSize) (numNewOrdersAllowed - 1)
             (place_bid prc maximumBidSize s)
         else insert_bids frontBid (offset + 1) maximumBidSize numNewOrdersAllowed s)
      else (s, maximumBidSize, numNewOrdersAllowed))"
  by pat_completeness auto
termination
  by (relation "measure (\<lambda>(f, offset, m, n, s). NUM_CLONES - offset)") auto

function insert_asks ::
  "ulong \<Rightarrow> nat \<Rightarrow> long \<Rightarrow> int \<Rightarrow> AutoTrader \<Rightarrow> AutoTrader \<times> long \<times> int" where
  "insert_asks frontAsk offset maximumAskSize numNewOrdersAllowed s =
     (if offset < NUM_CLONES \<and> sint maximumAskSize > 0 \<and> numNewOrdersAllowed > 0 then
        (let prc = to_uint (frontAsk + of_nat (offset * TICK_SIZE_IN_CENTS)) in
         if prc \<notin> set (mAskPrices s) then
           insert_asks frontAsk (offset + 1)
             (maximumAskSize - new_order_volume maximumAskSize) (numNewOrdersAllowed - 1)
             (place_ask prc maximumAskSize s)
         else insert_asks frontAsk (offset + 1) maximumAskSize numNewOrdersAllowed s)
      else (s, maximumAskSize, numNewOrdersAllowed))"
  by pat_completeness auto
termination
  by (relation "measure (\<lambda>(f, offset, m, n, s). NUM_CLONES - offset)") auto

declare insert_bids.simps [simp del] insert_asks.simps [simp del]

text \<open>"Adjust bid side" and "Adjust ask side"; each returns the budget it leaves.\<close>

definition adjust_bid_side ::
  "ulong \<Rightarrow> ulong \<Rightarrow> ulong \<Rightarrow> int \<Rightarrow> AutoTrader \<Rightarrow> (AutoTrader \<times> int) option" where
  "adjust_bid_side bestBidFut bestAskFut priceAdjustment numNewOrdersAllowed s =
     (if bestBidFut \<noteq> 0 then
        (let frontBid = frontBid_of bestBidFut bestAskFut priceAdjustment;
             maximumBidSize = (word_of_int POSITION_LIMIT :: long) - mPosition s
         in case scan_bids frontBid (mBidPrices s) (s, maximumBidSize) of
              None \<Rightarrow> None
            | Some (s1, maximumBidSize1) \<Rightarrow>
                (case insert_bids frontBid 0 maximumBidSize1 numNewOrdersAllowed s1 of
                   (s2, _, n) \<Rightarrow> Some (s2, n)))
      else Some (s, numNewOrdersAllowed))"

definition adjust_ask_side ::
  "ulong \<Rightarrow> ulong \<Rightarrow> ulong \<Rightarrow> int \<Rightarrow> AutoTrader \<Rightarrow> (AutoTrader \<times> int) option" where
  "adjust_ask_side bestBidFut bestAskFut priceAdjustment numNewOrdersAllowed s =
     (if bestAskFut \<noteq> 0 then
        (let frontAsk = frontAsk_of bestBidFut bestAskFut priceAdjustment;
             maximumAskSize = (word_of_int POSITION_LIMIT :: long) + mPosition s
         in case scan_asks frontAsk (mAskPrices s) (s, maximumAskSize) of
              None \<Rightarrow> None
            | Some (s1, maximumAskSize1) \<Rightarrow>
                (case insert_asks frontAsk 0 maximumAskSize1 numNewOrdersAllowed s1 of
                   (s2, _, n) \<Rightarrow> Some (s2, n)))
      else Some (s, numNewOrdersAllowed))"

text \<open>
  An array \<open>std::array<unsigned long, TOP_LEVEL_COUNT>\<close> is the function from index to
  element; the handler reads index 0 only. Logging is left out.
\<close>

type_synonym levels = "nat \<Rightarrow> ulong"

definition OrderBookMessageHandler ::
  "Instrument \<Rightarrow> ulong \<Rightarrow> levels \<Rightarrow> levels \<Rightarrow> levels \<Rightarrow> levels \<Rightarrow> AutoTrader \<Rightarrow> AutoTrader option" where
  "OrderBookMessageHandler instrument sequenceNumber askPrices askVolumes bidPrices bidVolumes s =
     (if instrument = FUTURE then
        (let bestBidFut = bidPrices 0; bestAskFut = askPrices 0 in
         case cancel_arbitragable_bids bestAskFut (mBidPrices s) s of
           None \<Rightarrow> None
         | Some s1 \<Rightarrow>
         case cancel_arbitragable_asks bestBidFut (mAskPrices s1) s1 of
           None \<Rightarrow> None
         | Some s2 \<Rightarrow>
         case priceAdjustment_of (mPosition s2) of
           None \<Rightarrow> None
         | Some priceAdjustment \<Rightarrow>
         case GetNonCancelMessagesAllowed (clock s2) (mMessageTracker s2) of
           (t, numNewOrdersAllowed) \<Rightarrow>
         case adjust_bid_side bestBidFut bestAskFut priceAdjustment numNewOrdersAllowed
                (s2\<lparr> mMessageTracker := t \<rparr>) of
           None \<Rightarrow> None
         | Some (s3, numNewOrdersAllowed3) \<Rightarrow>
         case adjust_ask_side bestBidFut bestAskFut priceAdjustment numNewOrdersAllowed3 s3 of
           None \<Rightarrow> None
         | Some (s4, _) \<Rightarrow> Some s4)
      else Some s)"

subsection \<open>OrderFilledMessageHandler, OrderStatusMessageHandler, ErrorMessageHandler\<close>

definition OrderFilledMessageHandler ::
  "nat \<Rightarrow> nat \<Rightarrow> ulong \<Rightarrow> ulong \<Rightarrow> ulong \<Rightarrow> AutoTrader \<Rightarrow> AutoTrader" where
  "OrderFilledMessageHandler MINIMUM_BID MAXIMUM_ASK clientOrderId prc vol s =
     (if mBidOrderIdToOrder s clientOrderId \<noteq> None then
        (let s1 = SendHedgeOrder (mNextMessageId s) SELL
                    (of_nat (MIN_BID_NEAREST_TICK MINIMUM_BID)) vol s
         in s1\<lparr> mNextMessageId := mNextMessageId s1 + 1, mPosition := mPosition s1 + vol \<rparr>)
      else
        (let s1 = SendHedgeOrder (mNextMessageId s) BUY
                    (of_nat (MAX_ASK_NEAREST_TICK MAXIMUM_ASK)) vol s
         in s1\<lparr> mNextMessageId := mNextMessageId s1 + 1, mPosition := mPosition s1 - vol \<rparr>))"

definition OrderStatusMessageHandler ::
  "ulong \<Rightarrow> ulong \<Rightarrow> ulong \<Rightarrow> long \<Rightarrow> AutoTrader \<Rightarrow> AutoTrader option" where
  "OrderStatusMessageHandler clientOrderId fillVolume remainingVolume fees s =
     (case mBidOrderIdToOrder s clientOrderId of
        Some order \<Rightarrow>
          (if remainingVolume = 0 then
             (let s1 = s\<lparr> mBidOrderIdToOrder := (mBidOrderIdToOrder s)(clientOrderId := None) \<rparr>
              in if order = 0 then Some s1
                 else case heap s1 order of
                   None \<Rightarrow> None
                 | Some ord \<Rightarrow>
                     Some (s1\<lparr> mBidToOrder := (mBidToOrder s1)(price ord := None),
                               mBidPrices := set_erase (price ord) (mBidPrices s1),
                               heap := (heap s1)(order := None) \<rparr>))
           else
             (case deref (heap s) order of
                None \<Rightarrow> None
              | Some ord \<Rightarrow>
                  Some (s\<lparr> heap := (heap s)(order \<mapsto> ord\<lparr> volume := remainingVolume \<rparr>) \<rparr>)))
      | None \<Rightarrow>
     (case mAskOrderIdToOrder s clientOrderId of
        Some order \<Rightarrow>
          (if remainingVolume = 0 then
             (let s1 = s\<lparr> mAskOrderIdToOrder := (mAskOrderIdToOrder s)(clientOrderId := None) \<rparr>
              in if order = 0 then Some s1
                 else case heap s1 order of
                   None \<Rightarrow> None
                 | Some ord \<Rightarrow>
                     Some (s1\<lparr> mAskToOrder := (mAskToOrder s1)(price ord := None),
                               mAskPrices := set_erase (price ord) (mAskPrices s1),
                               heap := (heap s1)(order := None) \<rparr>))
           else
             (case deref (heap s) order of
                None \<Rightarrow> None
              | Some ord \<Rightarrow>
                  Some (s\<lparr> heap := (heap s)(order \<mapsto> ord\<lparr> volume := remainingVolume \<rparr>) \<rparr>)))
      | None \<Rightarrow> Some s))"

definition ErrorMessageHandler :: "ulong \<Rightarrow> string \<Rightarrow> AutoTrader \<Rightarrow> AutoTrader option" where
  "ErrorMessageHandler clientOrderId errorMessage s =
     (if clientOrderId \<noteq> 0 \<and>
         (mAskOrderIdToOrder s clientOrderId \<noteq> None \<or> mBidOrderIdToOrder s clientOrderId \<noteq> None)
      then OrderStatusMessageHandler clientOrderId 0 0 0 s
      else Some s)"

text \<open>\<open>HedgeFilledMessageHandler\<close> and \<open>TradeTicksMessageHandler\<close> only write to the log.\<close>

definition HedgeFilledMessageHandler :: "ulong \<Rightarrow> ulong \<Rightarrow> ulong \<Rightarrow> AutoTrader \<Rightarrow> AutoTrader" where
  "HedgeFilledMessageHandler clientOrderId prc vol s = s"

definition TradeTicksMessageHandler ::
  "Instrument \<Rightarrow> ulong \<Rightarrow> levels \<Rightarrow> levels \<Rightarrow> levels \<Rightarrow> levels \<Rightarrow> AutoTrader \<Rightarrow> AutoTrader" where
  "TradeTicksMessageHandler instrument sequenceNumber askPrices askVolumes bidPrices bidVolumes s = s"

subsection \<open>Callbacks in sequence\<close>

text \<open>
  The callbacks arrive one at a time; between two of them the clock may advance
  (\<open>Elapse\<close>, in microseconds). A callback with undefined behaviour ends the run.
\<close>

datatype event =
    OrderBookMessage Instrument ulong levels levels levels levels
  | OrderFilledMessage ulong ulong ulong
  | OrderStatusMessage ulong ulong ulong long
  | ErrorMessage ulong string
  | HedgeFilledMessage ulong ulong ulong
  | TradeTicksMessage Instrument ulong levels levels levels levels
  | Elapse nat

fun handle :: "nat \<Rightarrow> nat \<Rightarrow> event \<Rightarrow> AutoTrader \<Rightarrow> AutoTrader option" where
  "handle lo hi (OrderBookMessage i sq ap av bp bv) s = OrderBookMessageHandler i sq ap av bp bv s"
| "handle lo hi (OrderFilledMessage cid prc vol) s = Some (OrderFilledMessageHandler lo hi cid prc vol s)"
| "handle lo hi (OrderStatusMessage cid fv rv fees) s = OrderStatusMessageHandler cid fv rv fees s"
| "handle lo hi (ErrorMessage cid msg) s = ErrorMessageHandler cid msg s"
| "handle lo hi (HedgeFilledMessage cid prc vol) s = Some (HedgeFilledMessageHandler cid prc vol s)"
| "handle lo hi (TradeTicksMessage i sq ap av bp bv) s = Some (TradeTicksMessageHandler i sq ap av bp bv s)"
| "handle lo hi (Elapse d) s = Some (s\<lparr> clock := clock s + int d \<rparr>)"

fun run :: "nat \<Rightarrow> nat \<Rightarrow> event list \<Rightarrow> AutoTrader \<Rightarrow> AutoTrader option" where
  "run lo hi [] s = Some s"
| "run lo hi (e # es) s = (case handle lo hi e s of None \<Rightarrow> None | Some s1 \<Rightarrow> run lo hi es s1)"

subsection \<open>Properties of states and of command lists\<close>

text \<open>
  One side's three views agree: the price set holds the keys of the price map, every
  pointer of the price map is a live order filed under its own price and found under its
  own id in the id map, and the other way round.
\<close>

definition side_consistent ::
  "ulong list \<Rightarrow> (ulong \<rightharpoonup> addr) \<Rightarrow> (ulong \<rightharpoonup> addr) \<Rightarrow> (addr \<rightharpoonup> Order) \<Rightarrow> bool" where
  "side_consistent prices toOrder idToOrder h \<longleftrightarrow>
     sorted prices \<and> distinct prices \<and> dom toOrder = set prices \<and>
     (\<forall>x p. toOrder x = Some p \<longrightarrow>
        p \<noteq> 0 \<and> (\<exists>ord. h p = Some ord \<and> price ord = x \<and> idToOrder (orderId ord) = Some p)) \<and>
     (\<forall>i p. idToOrder i = Some p \<longrightarrow>
        p \<noteq> 0 \<and> (\<exists>ord. h p = Some ord \<and> orderId ord = i \<and> toOrder (price ord) = Some p))"

definition registry_consistent :: "AutoTrader \<Rightarrow> bool" where
  "registry_consistent s \<longleftrightarrow>
     side_consistent (mBidPrices s) (mBidToOrder s) (mBidOrderIdToOrder s) (heap s) \<and>
     side_consistent (mAskPrices s) (mAskToOrder s) (mAskOrderIdToOrder s) (heap s)"

text \<open>
  What the handlers keep true besides: prices and ids were \<open>unsigned int\<close> values when
  the order was made, ids are older than \<open>mNextMessageId\<close> and belong to one side only,
  and \<open>new\<close> has not handed out the addresses from \<open>next_addr\<close> on.
\<close>

definition engine_inv :: "AutoTrader \<Rightarrow> bool" where
  "engine_inv s \<longleftrightarrow>
     registry_consistent s \<and>
     (\<forall>x \<in> set (mBidPrices s) \<union> set (mAskPrices s). x < 2 ^ 32) \<and>
     (\<forall>i \<in> dom (mBidOrderIdToOrder s) \<union> dom (mAskOrderIdToOrder s).
        i < 2 ^ 32 \<and> i < mNextMessageId s) \<and>
     dom (mBidOrderIdToOrder s) \<inter> dom (mAskOrderIdToOrder s) = {} \<and>
     0 < next_addr s \<and> (\<forall>p. heap s p \<noteq> None \<longrightarrow> p < next_addr s)"

text \<open>The order filed under a price, its id and its volume.\<close>

definition order_at :: "(ulong \<rightharpoonup> addr) \<Rightarrow> (addr \<rightharpoonup> Order) \<Rightarrow> ulong \<Rightarrow> Order option" where
  "order_at m h x = (case m x of None \<Rightarrow> None | Some p \<Rightarrow> deref h p)"

definition id_at :: "(ulong \<rightharpoonup> addr) \<Rightarrow> (addr \<rightharpoonup> Order) \<Rightarrow> ulong \<Rightarrow> ulong" where
  "id_at m h x = (case order_at m h x of None \<Rightarrow> 0 | Some ord \<Rightarrow> orderId ord)"

definition volume_at :: "(ulong \<rightharpoonup> addr) \<Rightarrow> (addr \<rightharpoonup> Order) \<Rightarrow> ulong \<Rightarrow> ulong" where
  "volume_at m h x = (case order_at m h x of None \<Rightarrow> 0 | Some ord \<Rightarrow> volume ord)"

text \<open>The tests of the two scan loops: the price lies outside the ladder's band.\<close>

definition bid_out_of_band :: "ulong \<Rightarrow> ulong \<Rightarrow> bool" where
  "bid_out_of_band frontBid x \<longleftrightarrow>
     x > frontBid \<or> x \<le> frontBid - of_nat (NUM_CLONES * TICK_SIZE_IN_CENTS)"

definition ask_out_of_band :: "ulong \<Rightarrow> ulong \<Rightarrow> bool" where
  "ask_out_of_band frontAsk x \<longleftrightarrow>
     x < frontAsk \<or> x \<ge> frontAsk + of_nat (NUM_CLONES * TICK_SIZE_IN_CENTS)"

fun is_cancel :: "command \<Rightarrow> bool" where
  "is_cancel (CancelOrder _) = True"
| "is_cancel _ = False"

fun is_insert :: "command \<Rightarrow> bool" where
  "is_insert (InsertOrder _ _ _ _ _) = True"
| "is_insert _ = False"

text \<open>The ids an event can use up: one per new order and one per hedge.\<close>

definition ids_per_event :: nat where "ids_per_event = 2 * NUM_CLONES"

subsection \<open>Example states\<close>

text \<open>One resting buy order, id 1, 10 lots at 9900; and one resting sell order at 10200.\<close>

definition one_bid :: AutoTrader where
  "one_bid = new_AutoTrader
     \<lparr> mNextMessageId := 2, mBidPrices := [9900], mBidToOrder := [9900 \<mapsto> 1],
       mBidOrderIdToOrder := [1 \<mapsto> 1],
       heap := [1 \<mapsto> \<lparr> price = 9900, volume = 10, orderId = 1 \<rparr>], next_addr := 2 \<rparr>"

definition one_ask :: AutoTrader where
  "one_ask = new_AutoTrader
     \<lparr> mNextMessageId := 2, mAskPrices := [10200], mAskToOrder := [10200 \<mapsto> 1],
       mAskOrderIdToOrder := [1 \<mapsto> 1],
       heap := [1 \<mapsto> \<lparr> price = 10200, volume = 10, orderId = 1 \<rparr>], next_addr := 2 \<rparr>"

text \<open>An order book with one level on each side.\<close>

definition top_only :: "ulong \<Rightarrow> levels" where
  "top_only x = (\<lambda>i. if i = 0 then x else 0)"

text \<open>
  The price the insert loops look at in turn \<open>offset\<close>: the \<open>unsigned int\<close> that
  \<open>frontBid - offset * TICK_SIZE_IN_CENTS\<close> (\<open>frontAsk + offset * TICK_SIZE_IN_CENTS\<close>) is
  stored in.
\<close>

definition bid_level :: "ulong \<Rightarrow> nat \<Rightarrow> ulong" where
  "bid_level f k = to_uint (f - of_nat (k * TICK_SIZE_IN_CENTS))"

definition ask_level :: "ulong \<Rightarrow> nat \<Rightarrow> ulong" where
  "ask_level f k = to_uint (f + of_nat (k * TICK_SIZE_IN_CENTS))"

text \<open>The volume an event fills.\<close>

fun fill_volume :: "event \<Rightarrow> nat" where
  "fill_volume (OrderFilledMessage cid prc vol) = unat vol"
| "fill_volume _ = 0"

text \<open>
  The cancel commands of the two arbitrage loops and of the two scan loops, in the order
  the loops send them, and the volume resting on a side.
\<close>

definition arb_bid_cancels :: "ulong \<Rightarrow> AutoTrader \<Rightarrow> command list" where
  "arb_bid_cancels bestAskFut s =
     map (\<lambda>x. CancelOrder (id_at (mBidToOrder s) (heap s) x)) (filter (\<lambda>x. bestAskFut < x) (mBidPrices s))"

definition arb_ask_cancels :: "ulong \<Rightarrow> AutoTrader \<Rightarrow> command list" where
  "arb_ask_cancels bestBidFut s =
     map (\<lambda>x. CancelOrder (id_at (mAskToOrder s) (heap s) x)) (filter (\<lambda>x. bestBidFut > x) (mAskPrices s))"

definition band_bid_cancels :: "ulong \<Rightarrow> AutoTrader \<Rightarrow> command list" where
  "band_bid_cancels frontBid s =
     map (\<lambda>x. CancelOrder (id_at (mBidToOrder s) (heap s) x)) (filter (bid_out_of_band frontBid) (mBidPrices s))"

definition band_ask_cancels :: "ulong \<Rightarrow> AutoTrader \<Rightarrow> command list" where
  "band_ask_cancels frontAsk s =
     map (\<lambda>x. CancelOrder (id_at (mAskToOrder s) (heap s) x)) (filter (ask_out_of_band frontAsk) (mAskPrices s))"

definition total_bid_volume :: "AutoTrader \<Rightarrow> ulong" where
  "total_bid_volume s = sum_list (map (volume_at (mBidToOrder s) (heap s)) (mBidPrices s))"

definition total_ask_volume :: "AutoTrader \<Rightarrow> ulong" where
  "total_ask_volume s = sum_list (map (volume_at (mAskToOrder s) (heap s)) (mAskPrices s))"

text \<open>
  A side of the registry that an order book update has nothing to do on: every order is
  inside the band of the front price, and the ladder is complete or the volume is used up.
\<close>

definition bid_side_settled :: "ulong \<Rightarrow> AutoTrader \<Rightarrow> bool" where
  "bid_side_settled frontBid s \<longleftrightarrow>
     (\<forall>x\<in>set (mBidPrices s). \<not> bid_out_of_band frontBid x) \<and>
     (sint ((word_of_int POSITION_LIMIT :: long) - mPosition s - total_bid_volume s) \<le> 0 \<or>
      (\<forall>k<NUM_CLONES. bid_level frontBid k \<in> set (mBidPrices s)))"

definition ask_side_settled :: "ulong \<Rightarrow> AutoTrader \<Rightarrow> bool" where
  "ask_side_settled frontAsk s \<longleftrightarrow>
     (\<forall>x\<in>set (mAskPrices s). \<not> ask_out_of_band frontAsk x) \<and>
     (sint ((word_of_int POSITION_LIMIT :: long) + mPosition s - total_ask_volume s) \<le> 0 \<or>
      (\<forall>k<NUM_CLONES. ask_level frontAsk k \<in> set (mAskPrices s)))"


fun ask_ladder_insert :: "ulong \<Rightarrow> command \<Rightarrow> bool" where
  "ask_ladder_insert f (InsertOrder i sd p v l) \<longleftrightarrow>
     sd = SELL \<and> l = GOOD_FOR_DAY \<and> p \<in> ask_level f ` {0..<NUM_CLONES}"
| "ask_ladder_insert f _ \<longleftrightarrow> False"


section \<open>Verification\<close>

lemmas const_defs = LOT_SIZE_def POSITION_LIMIT_def TICK_SIZE_IN_CENTS_def NUM_CLONES_def
  ADDITIONAL_SPREAD_def MAX_MESSAGE_FREQ_def PeriodLength_def safetyMargin_def maxOpenOrders_def
  minPositionImbalance_def

subsection \<open>The message budget\<close>

lemma remove_timed_out_none:
  "mHead t = mTail t \<or> currentTime - mMem t ! mHead t \<le> PeriodLength \<Longrightarrow>
   remove_timed_out currentTime t = t"
  by (subst remove_timed_out.simps) auto

text \<open>A burst of up to 50 messages into the fresh tracker leaves all of them live.\<close>

lemma note_messages_burst:
  "n \<le> 50 \<Longrightarrow>
   mHead (note_messages n c new_tracker) = 0 \<and>
   mTail (note_messages n c new_tracker) = n \<and>
   mRollingMessageCount (note_messages n c new_tracker) = of_nat n \<and>
   length (mMem (note_messages n c new_tracker)) = 800 \<and>
   (0 < n \<longrightarrow> mMem (note_messages n c new_tracker) ! 0 = c)"
proof (induction n)
  case 0
  then show ?case by (simp add: new_tracker_def MAX_MESSAGE_FREQ_def)
next
  case (Suc n)
  let ?t = "note_messages n c new_tracker"
  from Suc have ih: "mHead ?t = 0" "mTail ?t = n" "mRollingMessageCount ?t = of_nat n"
    "length (mMem ?t) = 800" "0 < n \<longrightarrow> mMem ?t ! 0 = c" and n: "n < 50"
    by simp_all
  let ?t2 = "?t\<lparr> mMem := (mMem ?t)[n := c], mTail := Suc n,
                  mRollingMessageCount := of_nat n + 1 \<rparr>"
  have live: "remove_timed_out c ?t2 = ?t2"
    using ih n by (intro remove_timed_out_none) (auto simp: PeriodLength_def nth_list_update)
  have le: "(of_nat n + 1 :: ulong) \<le> 50"
    using n by (simp add: word_le_nat_alt unat_word_ariths unat_of_nat take_bit_nat_eq_self)
  have "NoteMessage c ?t = (?t2, 0)"
    using ih n le by (simp add: NoteMessage_def Let_def live MAX_MESSAGE_FREQ_def not_less)
  then show ?case using ih n by (simp add: nth_list_update)
qed

lemma budget_of_live_count:
  assumes "mHead t = mTail t \<or> currentTime - mMem t ! mHead t \<le> PeriodLength"
  shows "snd (GetNonCancelMessagesAllowed currentTime t) =
         sint (ucast ((44 - mRollingMessageCount t) div 2) :: 32 word)"
  using assms
  by (simp add: GetNonCancelMessagesAllowed_def remove_timed_out_none const_defs Let_def)

text \<open>
  C1. \<open>GetNonCancelMessagesAllowed\<close> is meant to return
  \<open>max(0, (cap - liveCount - reservedOpenOrderSlots - safetyMargin) / 2)\<close>, never a
  negative number, and 0 with cap 50, 48 live messages and 6 reserved slots. The code
  subtracts in \<open>unsigned long\<close>, where \<open>std::max(0UL, _)\<close> changes nothing: after a burst
  of 48 messages, none of them expired, it returns -2.
\<close>

theorem C1_budget_after_48_live_messages:
  "mRollingMessageCount (note_messages 48 0 new_tracker) = 48 \<and>
   snd (GetNonCancelMessagesAllowed 0 (note_messages 48 0 new_tracker)) = - 2"
proof -
  note b = note_messages_burst[of 48 0]
  have "snd (GetNonCancelMessagesAllowed 0 (note_messages 48 0 new_tracker)) =
        sint (ucast ((44 - mRollingMessageCount (note_messages 48 0 new_tracker)) div 2) :: 32 word)"
    using b by (intro budget_of_live_count) (simp add: PeriodLength_def)
  then show ?thesis using b by simp
qed

subsection \<open>The inventory skew\<close>






lemma round_lots_bound: "\<bar>round_lots x\<bar> \<le> \<bar>x\<bar>"
  by (auto simp: round_lots_def LOT_SIZE_def)


lemma neg_to_int_defined:
  assumes "- (2 ^ 31) < r" "r < 2 ^ 31"
  shows "neg_int (to_int r) \<noteq> None"
proof -
  have "sint (word_of_int r :: 32 word) = r"
    using assms by (simp add: sint_sbintrunc' signed_take_bit_int_eq_self)
  then show ?thesis using assms by (simp add: neg_int_def to_int_def)
qed


lemma priceAdjustment_defined:
  assumes "\<bar>sint pos\<bar> \<le> 2 ^ 31"
  shows "priceAdjustment_of pos \<noteq> None"
proof -
  consider (long) "50 \<le> sint pos" | (short) "sint pos \<le> - 50" | (flat) "\<bar>sint pos\<bar> < 50"
    by linarith
  then show ?thesis
  proof cases
    case long
    then have "\<bar>round_lots (sint pos - 50)\<bar> < 2 ^ 31"
      using round_lots_bound[of "sint pos - 50"] assms by simp
    then have "neg_int (to_int (round_lots (sint pos - 50))) \<noteq> None"
      by (intro neg_to_int_defined) simp_all
    with long show ?thesis
      by (auto simp: priceAdjustment_of_def minPositionImbalance_def split: option.splits)
  next
    case short
    then have "\<bar>round_lots (sint pos + 50)\<bar> < 2 ^ 31"
      using round_lots_bound[of "sint pos + 50"] assms by simp
    then have "neg_int (to_int (round_lots (sint pos + 50))) \<noteq> None"
      by (intro neg_to_int_defined) simp_all
    with short show ?thesis
      by (auto simp: priceAdjustment_of_def minPositionImbalance_def split: option.splits)
  next
    case flat
    then show ?thesis
      by (auto simp: priceAdjustment_of_def minPositionImbalance_def)
  qed
qed



lemma priceAdjustment_0: "priceAdjustment_of 0 = Some 0"
  by (simp add: priceAdjustment_of_def minPositionImbalance_def)


subsection \<open>Sending leaves the registry alone\<close>

lemma send_fields [simp]:
  "mNextMessageId (send c s) = mNextMessageId s"
  "mPosition (send c s) = mPosition s"
  "mBidPrices (send c s) = mBidPrices s"
  "mAskPrices (send c s) = mAskPrices s"
  "mBidToOrder (send c s) = mBidToOrder s"
  "mBidOrderIdToOrder (send c s) = mBidOrderIdToOrder s"
  "mAskToOrder (send c s) = mAskToOrder s"
  "mAskOrderIdToOrder (send c s) = mAskOrderIdToOrder s"
  "heap (send c s) = heap s"
  "next_addr (send c s) = next_addr s"
  "sent (send c s) = sent s @ [c]"
  by (simp_all add: send_def note_message_def Let_def split: prod.split)

subsection \<open>Fills\<close>

lemma MIN_BID_NEAREST_TICK_extreme:
  "TICK_SIZE_IN_CENTS dvd MIN_BID_NEAREST_TICK lo \<and> lo < MIN_BID_NEAREST_TICK lo \<and>
   MIN_BID_NEAREST_TICK lo \<le> lo + TICK_SIZE_IN_CENTS"
  unfolding MIN_BID_NEAREST_TICK_def TICK_SIZE_IN_CENTS_def
  by presburger

lemma MAX_ASK_NEAREST_TICK_extreme:
  "TICK_SIZE_IN_CENTS dvd MAX_ASK_NEAREST_TICK hi \<and> MAX_ASK_NEAREST_TICK hi \<le> hi \<and>
   hi < MAX_ASK_NEAREST_TICK hi + TICK_SIZE_IN_CENTS"
  unfolding MAX_ASK_NEAREST_TICK_def TICK_SIZE_IN_CENTS_def
  by presburger

lemma sint_plus_uint:
  fixes a b :: "64 word"
  assumes "sint a + uint b < 2 ^ 63"
  shows "sint (a + b) = sint a + uint b"
proof -
  have "- (2 ^ 63) \<le> sint a" using sint_ge[of a] by simp
  moreover have "0 \<le> uint b" by simp
  ultimately have "signed_take_bit 63 (sint a + uint b) = sint a + uint b"
    using assms by (intro signed_take_bit_int_eq_self) linarith+
  moreover have "sint (word_of_int (sint a + uint b) :: 64 word)
                   = signed_take_bit 63 (sint a + uint b)"
    by (simp only: sint_sbintrunc') simp
  moreover have "a + b = word_of_int (sint a + uint b)" by simp
  ultimately show ?thesis by (simp only:)
qed

lemma sint_minus_uint:
  fixes a b :: "64 word"
  assumes "- (2 ^ 63) \<le> sint a - uint b"
  shows "sint (a - b) = sint a - uint b"
proof -
  have "sint a < 2 ^ 63" using sint_lt[of a] by simp
  moreover have "0 \<le> uint b" by simp
  ultimately have "signed_take_bit 63 (sint a - uint b) = sint a - uint b"
    using assms by (intro signed_take_bit_int_eq_self) linarith+
  moreover have "sint (word_of_int (sint a - uint b) :: 64 word)
                   = signed_take_bit 63 (sint a - uint b)"
    by (simp only: sint_sbintrunc') simp
  moreover have "a - b = word_of_int (sint a - uint b)" by simp
  ultimately show ?thesis by (simp only:)
qed

text \<open>
  C3. On a fill of an order in the bid registry the position goes up by the fill volume and
  one SELL hedge of that volume is sent at \<open>MIN_BID_NEAREST_TICK\<close>, the lowest tick
  multiple above the exchange's minimum bid; on a fill of an order in the ask registry the
  position goes down by the volume and one BUY hedge is sent at \<open>MAX_ASK_NEAREST_TICK\<close>,
  the highest tick multiple not above the exchange's maximum ask. Nothing else is sent.
  The position is a \<open>long\<close>: the change is exact as long as it stays in range.
\<close>

theorem C3_fill_moves_position_and_hedges_once:
  assumes "mBidOrderIdToOrder s cid \<noteq> None \<or> mAskOrderIdToOrder s cid \<noteq> None"
  shows "(mBidOrderIdToOrder s cid \<noteq> None \<longrightarrow>
            mPosition (OrderFilledMessageHandler lo hi cid prc vol s) = mPosition s + vol \<and>
            (sint (mPosition s) + uint vol < 2 ^ 63 \<longrightarrow>
               sint (mPosition (OrderFilledMessageHandler lo hi cid prc vol s))
                 = sint (mPosition s) + uint vol) \<and>
            sent (OrderFilledMessageHandler lo hi cid prc vol s)
              = sent s @ [HedgeOrder (mNextMessageId s) SELL (of_nat (MIN_BID_NEAREST_TICK lo)) vol]) \<and>
         (mBidOrderIdToOrder s cid = None \<longrightarrow>
            mPosition (OrderFilledMessageHandler lo hi cid prc vol s) = mPosition s - vol \<and>
            (- (2 ^ 63) \<le> sint (mPosition s) - uint vol \<longrightarrow>
               sint (mPosition (OrderFilledMessageHandler lo hi cid prc vol s))
                 = sint (mPosition s) - uint vol) \<and>
            sent (OrderFilledMessageHandler lo hi cid prc vol s)
              = sent s @ [HedgeOrder (mNextMessageId s) BUY (of_nat (MAX_ASK_NEAREST_TICK hi)) vol]) \<and>
         TICK_SIZE_IN_CENTS dvd MIN_BID_NEAREST_TICK lo \<and> lo < MIN_BID_NEAREST_TICK lo \<and>
         MIN_BID_NEAREST_TICK lo \<le> lo + TICK_SIZE_IN_CENTS \<and>
         TICK_SIZE_IN_CENTS dvd MAX_ASK_NEAREST_TICK hi \<and> MAX_ASK_NEAREST_TICK hi \<le> hi \<and>
         hi < MAX_ASK_NEAREST_TICK hi + TICK_SIZE_IN_CENTS"
proof -
  note up = sint_plus_uint[of "mPosition s" vol]
  note down = sint_minus_uint[of "mPosition s" vol]
  show ?thesis
    using up down MIN_BID_NEAREST_TICK_extreme[of lo] MAX_ASK_NEAREST_TICK_extreme[of hi]
    by (simp add: OrderFilledMessageHandler_def SendHedgeOrder_def Let_def)
qed

theorem C3_fill_moves_position_and_hedges_once_witness:
  "mBidOrderIdToOrder one_bid 1 \<noteq> None \<and>
   mPosition (OrderFilledMessageHandler 1 2147483647 1 9900 10 one_bid) = 10 \<and>
   sent (OrderFilledMessageHandler 1 2147483647 1 9900 10 one_bid) = [HedgeOrder 2 SELL 100 10] \<and>
   mAskOrderIdToOrder one_ask 1 \<noteq> None \<and>
   mPosition (OrderFilledMessageHandler 1 2147483647 1 10200 10 one_ask) = - 10 \<and>
   sent (OrderFilledMessageHandler 1 2147483647 1 10200 10 one_ask)
     = [HedgeOrder 2 BUY 2147483600 10]"
  using C3_fill_moves_position_and_hedges_once[of one_bid 1 1 2147483647 9900 10]
        C3_fill_moves_position_and_hedges_once[of one_ask 1 1 2147483647 10200 10]
  by (simp add: one_bid_def one_ask_def new_AutoTrader_def MIN_BID_NEAREST_TICK_def
      MAX_ASK_NEAREST_TICK_def TICK_SIZE_IN_CENTS_def)

text \<open>
  C9. A fill that names an id in neither registry takes the branch of the ask side: the
  position goes down by the fill volume and a BUY hedge of that volume is sent.
\<close>

theorem C9_unknown_fill_is_treated_as_sell_side:
  assumes "mBidOrderIdToOrder s cid = None" and "mAskOrderIdToOrder s cid = None"
  shows "mPosition (OrderFilledMessageHandler lo hi cid prc vol s) = mPosition s - vol \<and>
         sent (OrderFilledMessageHandler lo hi cid prc vol s)
           = sent s @ [HedgeOrder (mNextMessageId s) BUY (of_nat (MAX_ASK_NEAREST_TICK hi)) vol] \<and>
         mNextMessageId (OrderFilledMessageHandler lo hi cid prc vol s) = mNextMessageId s + 1"
  using assms by (simp add: OrderFilledMessageHandler_def SendHedgeOrder_def Let_def)

theorem C9_unknown_fill_is_treated_as_sell_side_witness:
  "mBidOrderIdToOrder one_bid 7 = None \<and> mAskOrderIdToOrder one_bid 7 = None \<and>
   mPosition (OrderFilledMessageHandler 1 2147483647 7 9900 5 one_bid) = - 5 \<and>
   sent (OrderFilledMessageHandler 1 2147483647 7 9900 5 one_bid) = [HedgeOrder 2 BUY 2147483600 5]"
  using C9_unknown_fill_is_treated_as_sell_side[of one_bid 7 1 2147483647 9900 5]
  by (simp add: one_bid_def new_AutoTrader_def MAX_ASK_NEAREST_TICK_def TICK_SIZE_IN_CENTS_def)

subsection \<open>The ladder on an empty registry\<close>

lemma insert_bids_empty_9900:
  assumes "mBidPrices s = []" "3 \<le> n"
  shows "\<exists>s'. insert_bids 9900 0 100 n s = (s', 70, n - 3) \<and>
     sent s' = sent s @ [InsertOrder (to_uint (mNextMessageId s)) BUY 9900 10 GOOD_FOR_DAY,
                         InsertOrder (to_uint (mNextMessageId s + 1)) BUY 9800 10 GOOD_FOR_DAY,
                         InsertOrder (to_uint (mNextMessageId s + 2)) BUY 9700 10 GOOD_FOR_DAY] \<and>
     mBidPrices s' = [9700, 9800, 9900] \<and>
     mAskPrices s' = mAskPrices s \<and> mPosition s' = mPosition s \<and>
     mNextMessageId s' = mNextMessageId s + 3"
  using assms
  apply (subst insert_bids.simps)
  apply (simp add: const_defs new_order_volume_def SendInsertOrder_def Let_def set_emplace_def
                   to_uint_def[of "numeral _"] place_bid_def place_ask_def)
  apply (subst insert_bids.simps)
  apply (simp add: const_defs new_order_volume_def SendInsertOrder_def Let_def set_emplace_def
                   to_uint_def[of "numeral _"] place_bid_def place_ask_def)
  apply (subst insert_bids.simps)
  apply (simp add: const_defs new_order_volume_def SendInsertOrder_def Let_def set_emplace_def
                   to_uint_def[of "numeral _"] place_bid_def place_ask_def)
  apply (subst insert_bids.simps)
  apply (simp add: const_defs new_order_volume_def SendInsertOrder_def Let_def set_emplace_def
                   to_uint_def[of "numeral _"] place_bid_def place_ask_def add.commute)
  done

lemma insert_asks_empty_10200:
  assumes "mAskPrices s = []" "3 \<le> n"
  shows "\<exists>s'. insert_asks 10200 0 100 n s = (s', 70, n - 3) \<and>
     sent s' = sent s @ [InsertOrder (to_uint (mNextMessageId s)) SELL 10200 10 GOOD_FOR_DAY,
                         InsertOrder (to_uint (mNextMessageId s + 1)) SELL 10300 10 GOOD_FOR_DAY,
                         InsertOrder (to_uint (mNextMessageId s + 2)) SELL 10400 10 GOOD_FOR_DAY] \<and>
     mAskPrices s' = [10200, 10300, 10400] \<and>
     mBidPrices s' = mBidPrices s \<and> mPosition s' = mPosition s \<and>
     mNextMessageId s' = mNextMessageId s + 3"
  using assms
  apply (subst insert_asks.simps)
  apply (simp add: const_defs new_order_volume_def SendInsertOrder_def Let_def set_emplace_def
                   to_uint_def[of "numeral _"] place_bid_def place_ask_def)
  apply (subst insert_asks.simps)
  apply (simp add: const_defs new_order_volume_def SendInsertOrder_def Let_def set_emplace_def
                   to_uint_def[of "numeral _"] place_bid_def place_ask_def)
  apply (subst insert_asks.simps)
  apply (simp add: const_defs new_order_volume_def SendInsertOrder_def Let_def set_emplace_def
                   to_uint_def[of "numeral _"] place_bid_def place_ask_def)
  apply (subst insert_asks.simps)
  apply (simp add: const_defs new_order_volume_def SendInsertOrder_def Let_def set_emplace_def
                   to_uint_def[of "numeral _"] place_bid_def place_ask_def add.commute)
  done

text \<open>
  C4. With no price on either side of the registry, position 0 and a budget of at least 6
  new orders, a FUTURE order book with best bid 10000 and best ask 10100 makes the handler
  send exactly six inserts of 10 lots, in this order: buys at 9900, 9800, 9700, then sells
  at 10200, 10300, 10400 (ladder depth 3, tick 100, lot 10).
\<close>

theorem C4_ladder_on_empty_registry:
  assumes "mBidPrices s = []" and "mAskPrices s = []" and "mPosition s = 0"
    and "int (2 * NUM_CLONES) \<le> snd (GetNonCancelMessagesAllowed (clock s) (mMessageTracker s))"
    and "bidPrices 0 = 10000" and "askPrices 0 = 10100"
  shows "\<exists>s'. OrderBookMessageHandler FUTURE sequenceNumber askPrices askVolumes bidPrices bidVolumes s
                = Some s' \<and>
           sent s' = sent s @
             [InsertOrder (to_uint (mNextMessageId s)) BUY 9900 10 GOOD_FOR_DAY,
              InsertOrder (to_uint (mNextMessageId s + 1)) BUY 9800 10 GOOD_FOR_DAY,
              InsertOrder (to_uint (mNextMessageId s + 2)) BUY 9700 10 GOOD_FOR_DAY,
              InsertOrder (to_uint (mNextMessageId s + 3)) SELL 10200 10 GOOD_FOR_DAY,
              InsertOrder (to_uint (mNextMessageId s + 4)) SELL 10300 10 GOOD_FOR_DAY,
              InsertOrder (to_uint (mNextMessageId s + 5)) SELL 10400 10 GOOD_FOR_DAY] \<and>
           mBidPrices s' = [9700, 9800, 9900] \<and> mAskPrices s' = [10200, 10300, 10400]"
proof -
  obtain t n where g: "GetNonCancelMessagesAllowed (clock s) (mMessageTracker s) = (t, n)"
    by (cases "GetNonCancelMessagesAllowed (clock s) (mMessageTracker s)")
  with assms(4) have n: "6 \<le> n" by (simp add: NUM_CLONES_def)
  let ?s0 = "s\<lparr> mMessageTracker := t \<rparr>"
  have fb: "frontBid_of 10000 10100 0 = 9900"
    by (simp add: frontBid_of_def ADDITIONAL_SPREAD_def TICK_SIZE_IN_CENTS_def)
  have fa: "frontAsk_of 10000 10100 0 = 10200"
    by (simp add: frontAsk_of_def ADDITIONAL_SPREAD_def TICK_SIZE_IN_CENTS_def)
  from insert_bids_empty_9900[of ?s0 n] assms(1) n
  obtain s1 where b: "insert_bids 9900 0 100 n ?s0 = (s1, 70, n - 3)"
    and b1: "sent s1 = sent s @ [InsertOrder (to_uint (mNextMessageId s)) BUY 9900 10 GOOD_FOR_DAY,
                         InsertOrder (to_uint (mNextMessageId s + 1)) BUY 9800 10 GOOD_FOR_DAY,
                         InsertOrder (to_uint (mNextMessageId s + 2)) BUY 9700 10 GOOD_FOR_DAY]"
    and b2: "mBidPrices s1 = [9700, 9800, 9900]" "mAskPrices s1 = mAskPrices s"
       "mPosition s1 = mPosition s" "mNextMessageId s1 = mNextMessageId s + 3"
    by auto
  from insert_asks_empty_10200[of s1 "n - 3"] assms(2) n b2
  obtain s2 where a: "insert_asks 10200 0 100 (n - 3) s1 = (s2, 70, n - 3 - 3)"
    and a1: "sent s2 = sent s1 @ [InsertOrder (to_uint (mNextMessageId s1)) SELL 10200 10 GOOD_FOR_DAY,
                         InsertOrder (to_uint (mNextMessageId s1 + 1)) SELL 10300 10 GOOD_FOR_DAY,
                         InsertOrder (to_uint (mNextMessageId s1 + 2)) SELL 10400 10 GOOD_FOR_DAY]"
    and a2: "mAskPrices s2 = [10200, 10300, 10400]" "mBidPrices s2 = mBidPrices s1"
    by auto
  have "OrderBookMessageHandler FUTURE sequenceNumber askPrices askVolumes bidPrices bidVolumes s
          = Some s2"
    using assms(1,2,3,5,6) g b a b2 fb fa
    by (simp add: OrderBookMessageHandler_def priceAdjustment_0 adjust_bid_side_def
        adjust_ask_side_def POSITION_LIMIT_def Let_def)
  then show ?thesis using a1 a2 b1 b2 by (simp add: add.assoc)
qed

theorem C4_ladder_on_empty_registry_witness:
  "mBidPrices new_AutoTrader = [] \<and> mAskPrices new_AutoTrader = [] \<and> mPosition new_AutoTrader = 0 \<and>
   snd (GetNonCancelMessagesAllowed (clock new_AutoTrader) (mMessageTracker new_AutoTrader)) = 22 \<and>
   (\<exists>s'. OrderBookMessageHandler FUTURE 1 (top_only 10100) (top_only 5) (top_only 10000) (top_only 5)
            new_AutoTrader = Some s' \<and>
         sent s' = [InsertOrder 1 BUY 9900 10 GOOD_FOR_DAY, InsertOrder 2 BUY 9800 10 GOOD_FOR_DAY,
                    InsertOrder 3 BUY 9700 10 GOOD_FOR_DAY, InsertOrder 4 SELL 10200 10 GOOD_FOR_DAY,
                    InsertOrder 5 SELL 10300 10 GOOD_FOR_DAY, InsertOrder 6 SELL 10400 10 GOOD_FOR_DAY])"
proof -
  have g: "snd (GetNonCancelMessagesAllowed (clock new_AutoTrader) (mMessageTracker new_AutoTrader)) = 22"
    by (simp add: new_AutoTrader_def new_tracker_def budget_of_live_count)
  have i: "to_uint 1 = 1" "to_uint 2 = 2" "to_uint 3 = 3" "to_uint 4 = 4" "to_uint 5 = 5" "to_uint 6 = 6"
    by (simp_all add: to_uint_def)
  show ?thesis
    using C4_ladder_on_empty_registry[of new_AutoTrader "top_only 10000" "top_only 10100" 1
        "top_only 5" "top_only 5"] g i
    by (auto simp: new_AutoTrader_def top_only_def NUM_CLONES_def)
qed

subsection \<open>One side of the registry\<close>

lemma set_emplace_props:
  "set (set_emplace x xs) = insert x (set xs)"
  "sorted xs \<Longrightarrow> sorted (set_emplace x xs)"
  "distinct xs \<Longrightarrow> distinct (set_emplace x xs)"
  by (auto simp: set_emplace_def set_insort_key sorted_insort distinct_insort)

lemma set_erase_props:
  "set (set_erase x xs) = set xs - {x}"
  "sorted xs \<Longrightarrow> sorted (set_erase x xs)"
  "distinct xs \<Longrightarrow> distinct (set_erase x xs)"
  by (auto simp: set_erase_def sorted_wrt_filter removeAll_filter_not_eq distinct_removeAll
           intro: sorted_filter[where f = "\<lambda>x. x", simplified])

lemma side_consistent_insert:
  assumes c: "side_consistent prices toO idO h"
    and x: "x \<notin> set prices" and i: "idO i = None" and p: "h p = None" "p \<noteq> 0"
  shows "side_consistent (set_emplace x prices) (toO(x \<mapsto> p)) (idO(i \<mapsto> p))
           (h(p \<mapsto> \<lparr> price = x, volume = v, orderId = i \<rparr>))"
  unfolding side_consistent_def
proof (intro conjI allI impI)
  from c have s: "sorted prices" "distinct prices" and d: "dom toO = set prices"
    and a: "\<And>y q. toO y = Some q \<Longrightarrow>
              q \<noteq> 0 \<and> (\<exists>ord. h q = Some ord \<and> price ord = y \<and> idO (orderId ord) = Some q)"
    and b: "\<And>j q. idO j = Some q \<Longrightarrow>
              q \<noteq> 0 \<and> (\<exists>ord. h q = Some ord \<and> orderId ord = j \<and> toO (price ord) = Some q)"
    unfolding side_consistent_def by blast+
  show "sorted (set_emplace x prices)" "distinct (set_emplace x prices)"
    using s by (simp_all add: set_emplace_props)
  show "dom (toO(x \<mapsto> p)) = set (set_emplace x prices)"
    using d by (simp add: set_emplace_props)
  from x d have tx: "toO x = None" by auto
  { fix y q assume h1: "(toO(x \<mapsto> p)) y = Some q"
    show "q \<noteq> 0" using h1 a p by (auto split: if_splits)
    show "\<exists>ord. (h(p \<mapsto> \<lparr>price = x, volume = v, orderId = i\<rparr>)) q = Some ord \<and> price ord = y \<and>
            (idO(i \<mapsto> p)) (orderId ord) = Some q"
    proof (cases "y = x")
      case True
      then show ?thesis using h1 by simp
    next
      case False
      with h1 have "toO y = Some q" by simp
      from a[OF this] obtain ord where o: "h q = Some ord" "price ord = y" "idO (orderId ord) = Some q"
        by blast
      then have "q \<noteq> p" "orderId ord \<noteq> i" using p i by auto
      then show ?thesis using o by simp
    qed }
  { fix j q assume h2: "(idO(i \<mapsto> p)) j = Some q"
    show "q \<noteq> 0" using h2 b p by (auto split: if_splits)
    show "\<exists>ord. (h(p \<mapsto> \<lparr>price = x, volume = v, orderId = i\<rparr>)) q = Some ord \<and> orderId ord = j \<and>
            (toO(x \<mapsto> p)) (price ord) = Some q"
    proof (cases "j = i")
      case True
      then show ?thesis using h2 by simp
    next
      case False
      with h2 have "idO j = Some q" by simp
      from b[OF this] obtain ord where o: "h q = Some ord" "orderId ord = j" "toO (price ord) = Some q"
        by blast
      then have "q \<noteq> p" "price ord \<noteq> x" using p tx by auto
      then show ?thesis using o by simp
    qed }
qed

lemma side_consistent_heap_add:
  assumes "side_consistent prices toO idO h" and "h p = None"
  shows "side_consistent prices toO idO (h(p \<mapsto> ord))"
  using assms unfolding side_consistent_def
  by (auto; metis option.distinct(1))

lemma side_consistent_heap_del:
  assumes "side_consistent prices toO idO h" and "p \<notin> ran toO"
  shows "side_consistent prices toO idO (h(p := None))"
  using assms unfolding side_consistent_def ran_def
  by (auto; metis)

lemma side_consistent_volume:
  assumes "side_consistent prices toO idO h" and "h p = Some ord"
  shows "side_consistent prices toO idO (h(p \<mapsto> ord\<lparr> volume := v \<rparr>))"
  using assms unfolding side_consistent_def
  by (auto; metis option.inject)

lemma side_consistent_erase:
  assumes c: "side_consistent prices toO idO h" and i: "idO i = Some p" and o: "h p = Some ord"
  shows "side_consistent (set_erase (price ord) prices) (toO(price ord := None)) (idO(i := None))
           (h(p := None))"
  unfolding side_consistent_def
proof (intro conjI allI impI)
  from c have s: "sorted prices" "distinct prices" and d: "dom toO = set prices"
    and a: "\<And>y q. toO y = Some q \<Longrightarrow>
              q \<noteq> 0 \<and> (\<exists>ord. h q = Some ord \<and> price ord = y \<and> idO (orderId ord) = Some q)"
    and b: "\<And>j q. idO j = Some q \<Longrightarrow>
              q \<noteq> 0 \<and> (\<exists>ord. h q = Some ord \<and> orderId ord = j \<and> toO (price ord) = Some q)"
    unfolding side_consistent_def by blast+
  from b[OF i] o have oi: "orderId ord = i" and tp: "toO (price ord) = Some p" by auto
  show "sorted (set_erase (price ord) prices)" "distinct (set_erase (price ord) prices)"
    using s by (simp_all add: set_erase_props)
  show "dom (toO(price ord := None)) = set (set_erase (price ord) prices)"
    using d by (auto simp: set_erase_props)
  { fix y q assume h1: "(toO(price ord := None)) y = Some q"
    then have ty: "toO y = Some q" and ne: "y \<noteq> price ord" by (auto split: if_splits)
    from a[OF ty] obtain ord' where o': "h q = Some ord'" "price ord' = y" "idO (orderId ord') = Some q"
      and q0: "q \<noteq> 0" by blast
    have qp: "q \<noteq> p" using o o' ne by auto
    have "orderId ord' \<noteq> i" using o' i qp by auto
    then show "q \<noteq> 0" and "\<exists>ord'. (h(p := None)) q = Some ord' \<and> price ord' = y \<and>
            (idO(i := None)) (orderId ord') = Some q"
      using o' qp q0 by auto }
  { fix j q assume h2: "(idO(i := None)) j = Some q"
    then have tj: "idO j = Some q" and ne: "j \<noteq> i" by (auto split: if_splits)
    from b[OF tj] obtain ord' where o': "h q = Some ord'" "orderId ord' = j" "toO (price ord') = Some q"
      and q0: "q \<noteq> 0" by blast
    have qp: "q \<noteq> p" using o o' ne oi by auto
    have "price ord' \<noteq> price ord" using o' tp qp by auto
    then show "q \<noteq> 0" and "\<exists>ord'. (h(p := None)) q = Some ord' \<and> orderId ord' = j \<and>
            (toO(price ord := None)) (price ord') = Some q"
      using o' qp q0 by auto }
qed

lemma send_frame:
  "\<exists>t c. send cmd s = s\<lparr> mMessageTracker := t, clock := c, sent := sent s @ [cmd] \<rparr>"
  by (auto simp: send_def note_message_def Let_def split: prod.split)

lemma engine_inv_frame [simp]:
  "engine_inv (s\<lparr> mMessageTracker := t \<rparr>) = engine_inv s"
  "engine_inv (s\<lparr> clock := c \<rparr>) = engine_inv s"
  "engine_inv (s\<lparr> sent := out \<rparr>) = engine_inv s"
  by (simp_all add: engine_inv_def registry_consistent_def)

lemma order_at_bid:
  assumes "registry_consistent s" "x \<in> set (mBidPrices s)"
  shows "\<exists>p ord. mBidToOrder s x = Some p \<and> p \<noteq> 0 \<and> heap s p = Some ord \<and> price ord = x \<and>
           mBidOrderIdToOrder s (orderId ord) = Some p \<and>
           order_at (mBidToOrder s) (heap s) x = Some ord"
proof -
  from assms have c: "side_consistent (mBidPrices s) (mBidToOrder s) (mBidOrderIdToOrder s) (heap s)"
    by (simp add: registry_consistent_def)
  then have "x \<in> dom (mBidToOrder s)" using assms(2) by (simp add: side_consistent_def)
  then obtain p where p: "mBidToOrder s x = Some p" by auto
  with c obtain ord where "p \<noteq> 0" "heap s p = Some ord" "price ord = x"
    "mBidOrderIdToOrder s (orderId ord) = Some p"
    unfolding side_consistent_def by blast
  then show ?thesis using p by (simp add: order_at_def deref_def)
qed

lemma order_at_ask:
  assumes "registry_consistent s" "x \<in> set (mAskPrices s)"
  shows "\<exists>p ord. mAskToOrder s x = Some p \<and> p \<noteq> 0 \<and> heap s p = Some ord \<and> price ord = x \<and>
           mAskOrderIdToOrder s (orderId ord) = Some p \<and>
           order_at (mAskToOrder s) (heap s) x = Some ord"
proof -
  from assms have c: "side_consistent (mAskPrices s) (mAskToOrder s) (mAskOrderIdToOrder s) (heap s)"
    by (simp add: registry_consistent_def)
  then have "x \<in> dom (mAskToOrder s)" using assms(2) by (simp add: side_consistent_def)
  then obtain p where p: "mAskToOrder s x = Some p" by auto
  with c obtain ord where "p \<noteq> 0" "heap s p = Some ord" "price ord = x"
    "mAskOrderIdToOrder s (orderId ord) = Some p"
    unfolding side_consistent_def by blast
  then show ?thesis using p by (simp add: order_at_def deref_def)
qed

lemma order_at_SomeD:
  "order_at m h x = Some ord \<Longrightarrow> \<exists>p. m x = Some p \<and> p \<noteq> 0 \<and> h p = Some ord"
  by (auto simp: order_at_def deref_def split: option.splits if_splits)

subsection \<open>The arbitrage loops\<close>

lemma cancel_arbitragable_bids_sent:
  assumes "\<forall>x\<in>set xs. order_at (mBidToOrder s) (heap s) x \<noteq> None"
  shows "\<exists>t c. cancel_arbitragable_bids a xs s =
           Some (s\<lparr> mMessageTracker := t, clock := c,
                    sent := sent s @ map (\<lambda>x. CancelOrder (to_uint (id_at (mBidToOrder s) (heap s) x)))
                                       (filter (\<lambda>x. a < x) xs) \<rparr>)"
  using assms
proof (induction xs arbitrary: s)
  case Nil
  show ?case
    by (rule exI[of _ "mMessageTracker s"], rule exI[of _ "clock s"]) simp
next
  case (Cons x xs)
  show ?case
  proof (cases "a < x")
    case False
    then show ?thesis using Cons by simp
  next
    case True
    from Cons.prems obtain ord where o: "order_at (mBidToOrder s) (heap s) x = Some ord" by auto
    from order_at_SomeD[OF this] obtain p where p: "mBidToOrder s x = Some p" "p \<noteq> 0" "heap s p = Some ord"
      by blast
    let ?cmd = "CancelOrder (to_uint (orderId ord))"
    obtain t1 c1 where s1: "send ?cmd s = s\<lparr> mMessageTracker := t1, clock := c1, sent := sent s @ [?cmd] \<rparr>"
      using send_frame by blast
    have pre: "\<forall>y\<in>set xs. order_at (mBidToOrder (send ?cmd s)) (heap (send ?cmd s)) y \<noteq> None"
      using Cons.prems by simp
    from Cons.IH[OF pre] obtain t c where
      r: "cancel_arbitragable_bids a xs (send ?cmd s) =
           Some ((send ?cmd s)\<lparr> mMessageTracker := t, clock := c,
                    sent := sent (send ?cmd s) @ map (\<lambda>x. CancelOrder (to_uint (id_at (mBidToOrder (send ?cmd s)) (heap (send ?cmd s)) x)))
                                       (filter (\<lambda>x. a < x) xs) \<rparr>)"
      by blast
    have "cancel_arbitragable_bids a (x # xs) s = cancel_arbitragable_bids a xs (send ?cmd s)"
      using True p by (simp add: map_index_def deref_def SendCancelOrder_def)
    also note r
    finally show ?thesis
      using True o by (subst (asm) s1) (auto simp: id_at_def)
  qed
qed

lemma cancel_arbitragable_asks_sent:
  assumes "\<forall>x\<in>set xs. order_at (mAskToOrder s) (heap s) x \<noteq> None"
  shows "\<exists>t c. cancel_arbitragable_asks b xs s =
           Some (s\<lparr> mMessageTracker := t, clock := c,
                    sent := sent s @ map (\<lambda>x. CancelOrder (to_uint (id_at (mAskToOrder s) (heap s) x)))
                                       (filter (\<lambda>x. x < b) xs) \<rparr>)"
  using assms
proof (induction xs arbitrary: s)
  case Nil
  show ?case
    by (rule exI[of _ "mMessageTracker s"], rule exI[of _ "clock s"]) simp
next
  case (Cons x xs)
  show ?case
  proof (cases "x < b")
    case False
    then show ?thesis using Cons by simp
  next
    case True
    from Cons.prems obtain ord where o: "order_at (mAskToOrder s) (heap s) x = Some ord" by auto
    from order_at_SomeD[OF this] obtain p where p: "mAskToOrder s x = Some p" "p \<noteq> 0" "heap s p = Some ord"
      by blast
    let ?cmd = "CancelOrder (to_uint (orderId ord))"
    obtain t1 c1 where s1: "send ?cmd s = s\<lparr> mMessageTracker := t1, clock := c1, sent := sent s @ [?cmd] \<rparr>"
      using send_frame by blast
    have pre: "\<forall>y\<in>set xs. order_at (mAskToOrder (send ?cmd s)) (heap (send ?cmd s)) y \<noteq> None"
      using Cons.prems by simp
    from Cons.IH[OF pre] obtain t c where
      r: "cancel_arbitragable_asks b xs (send ?cmd s) =
           Some ((send ?cmd s)\<lparr> mMessageTracker := t, clock := c,
                    sent := sent (send ?cmd s) @ map (\<lambda>x. CancelOrder (to_uint (id_at (mAskToOrder (send ?cmd s)) (heap (send ?cmd s)) x)))
                                       (filter (\<lambda>x. x < b) xs) \<rparr>)"
      by blast
    have "cancel_arbitragable_asks b (x # xs) s = cancel_arbitragable_asks b xs (send ?cmd s)"
      using True p by (simp add: map_index_def deref_def SendCancelOrder_def)
    also note r
    finally show ?thesis
      using True o by (subst (asm) s1) (auto simp: id_at_def)
  qed
qed

subsection \<open>The scan loops\<close>

lemma scan_bids_sent:
  assumes "\<forall>x\<in>set xs. to_uint x = x \<and> order_at (mBidToOrder s) (heap s) x \<noteq> None"
  shows "\<exists>t c. scan_bids f xs (s, m) =
           Some (s\<lparr> mMessageTracker := t, clock := c,
                    sent := sent s @ map (\<lambda>x. CancelOrder (id_at (mBidToOrder s) (heap s) x))
                                       (filter (bid_out_of_band f) xs) \<rparr>,
                 m - sum_list (map (volume_at (mBidToOrder s) (heap s)) xs))"
  using assms
proof (induction xs arbitrary: s m)
  case Nil
  show ?case
    by (rule exI[of _ "mMessageTracker s"], rule exI[of _ "clock s"]) simp
next
  case (Cons x xs)
  from Cons.prems obtain ord where o: "order_at (mBidToOrder s) (heap s) x = Some ord"
    and ux: "to_uint x = x" by auto
  from order_at_SomeD[OF o] obtain p where p: "mBidToOrder s x = Some p" "p \<noteq> 0" "heap s p = Some ord"
    by blast
  have v: "volume_at (mBidToOrder s) (heap s) x = volume ord" using o by (simp add: volume_at_def)
  show ?case
  proof (cases "bid_out_of_band f x")
    case False
    have "scan_bids f (x # xs) (s, m) = scan_bids f xs (s, m - volume ord)"
      using False p ux by (simp add: map_index_def bid_out_of_band_def Let_def)
    moreover have pre: "\<forall>y\<in>set xs. to_uint y = y \<and> order_at (mBidToOrder s) (heap s) y \<noteq> None"
      using Cons.prems by simp
    ultimately show ?thesis
      using Cons.IH[OF pre, of "m - volume ord"] False v by (simp add: diff_diff_eq)
  next
    case True
    let ?cmd = "CancelOrder (orderId ord)"
    obtain t1 c1 where s1: "send ?cmd s = s\<lparr> mMessageTracker := t1, clock := c1, sent := sent s @ [?cmd] \<rparr>"
      using send_frame by blast
    have pre: "\<forall>y\<in>set xs. to_uint y = y \<and> order_at (mBidToOrder (send ?cmd s)) (heap (send ?cmd s)) y \<noteq> None"
      using Cons.prems by simp
    from Cons.IH[OF pre, of "m - volume ord"] obtain t c where
      r: "scan_bids f xs (send ?cmd s, m - volume ord) =
           Some ((send ?cmd s)\<lparr> mMessageTracker := t, clock := c,
                    sent := sent (send ?cmd s) @ map (\<lambda>x. CancelOrder (id_at (mBidToOrder (send ?cmd s)) (heap (send ?cmd s)) x))
                                       (filter (bid_out_of_band f) xs) \<rparr>,
                 m - volume ord - sum_list (map (volume_at (mBidToOrder (send ?cmd s)) (heap (send ?cmd s))) xs))"
      by blast
    have "scan_bids f (x # xs) (s, m) = scan_bids f xs (send ?cmd s, m - volume ord)"
      using True p ux by (simp add: map_index_def bid_out_of_band_def SendCancelOrder_def Let_def)
    also note r
    finally show ?thesis
      using True o v by (subst (asm) s1) (auto simp: id_at_def diff_diff_eq)
  qed
qed

lemma scan_asks_sent:
  assumes "\<forall>x\<in>set xs. to_uint x = x \<and> order_at (mAskToOrder s) (heap s) x \<noteq> None"
  shows "\<exists>t c. scan_asks f xs (s, m) =
           Some (s\<lparr> mMessageTracker := t, clock := c,
                    sent := sent s @ map (\<lambda>x. CancelOrder (id_at (mAskToOrder s) (heap s) x))
                                       (filter (ask_out_of_band f) xs) \<rparr>,
                 m - sum_list (map (volume_at (mAskToOrder s) (heap s)) xs))"
  using assms
proof (induction xs arbitrary: s m)
  case Nil
  show ?case
    by (rule exI[of _ "mMessageTracker s"], rule exI[of _ "clock s"]) simp
next
  case (Cons x xs)
  from Cons.prems obtain ord where o: "order_at (mAskToOrder s) (heap s) x = Some ord"
    and ux: "to_uint x = x" by auto
  from order_at_SomeD[OF o] obtain p where p: "mAskToOrder s x = Some p" "p \<noteq> 0" "heap s p = Some ord"
    by blast
  have v: "volume_at (mAskToOrder s) (heap s) x = volume ord" using o by (simp add: volume_at_def)
  show ?case
  proof (cases "ask_out_of_band f x")
    case False
    have "scan_asks f (x # xs) (s, m) = scan_asks f xs (s, m - volume ord)"
      using False p ux by (simp add: map_index_def ask_out_of_band_def Let_def)
    moreover have pre: "\<forall>y\<in>set xs. to_uint y = y \<and> order_at (mAskToOrder s) (heap s) y \<noteq> None"
      using Cons.prems by simp
    ultimately show ?thesis
      using Cons.IH[OF pre, of "m - volume ord"] False v by (simp add: diff_diff_eq)
  next
    case True
    let ?cmd = "CancelOrder (orderId ord)"
    obtain t1 c1 where s1: "send ?cmd s = s\<lparr> mMessageTracker := t1, clock := c1, sent := sent s @ [?cmd] \<rparr>"
      using send_frame by blast
    have pre: "\<forall>y\<in>set xs. to_uint y = y \<and> order_at (mAskToOrder (send ?cmd s)) (heap (send ?cmd s)) y \<noteq> None"
      using Cons.prems by simp
    from Cons.IH[OF pre, of "m - volume ord"] obtain t c where
      r: "scan_asks f xs (send ?cmd s, m - volume ord) =
           Some ((send ?cmd s)\<lparr> mMessageTracker := t, clock := c,
                    sent := sent (send ?cmd s) @ map (\<lambda>x. CancelOrder (id_at (mAskToOrder (send ?cmd s)) (heap (send ?cmd s)) x))
                                       (filter (ask_out_of_band f) xs) \<rparr>,
                 m - volume ord - sum_list (map (volume_at (mAskToOrder (send ?cmd s)) (heap (send ?cmd s))) xs))"
      by blast
    have "scan_asks f (x # xs) (s, m) = scan_asks f xs (send ?cmd s, m - volume ord)"
      using True p ux by (simp add: map_index_def ask_out_of_band_def SendCancelOrder_def Let_def)
    also note r
    finally show ?thesis
      using True o v by (subst (asm) s1) (auto simp: id_at_def diff_diff_eq)
  qed
qed

subsection \<open>Placing a new order\<close>

lemma place_bid_frame:
  "\<exists>t c. place_bid x m s =
     s\<lparr> mNextMessageId := mNextMessageId s + 1, mMessageTracker := t, clock := c,
        sent := sent s @ [InsertOrder (to_uint (mNextMessageId s)) BUY x (new_order_volume m) GOOD_FOR_DAY],
        heap := (heap s)(next_addr s \<mapsto>
                  \<lparr> price = x, volume = new_order_volume m, orderId = to_uint (mNextMessageId s) \<rparr>),
        next_addr := next_addr s + 1,
        mBidPrices := set_emplace x (mBidPrices s),
        mBidToOrder := (mBidToOrder s)(x \<mapsto> next_addr s),
        mBidOrderIdToOrder := (mBidOrderIdToOrder s)(to_uint (mNextMessageId s) \<mapsto> next_addr s) \<rparr>"
proof -
  let ?c = "InsertOrder (to_uint (mNextMessageId s)) BUY x (new_order_volume m) GOOD_FOR_DAY"
  obtain t c where "send ?c (s\<lparr> mNextMessageId := mNextMessageId s + 1 \<rparr>) =
      s\<lparr> mNextMessageId := mNextMessageId s + 1 \<rparr>\<lparr> mMessageTracker := t, clock := c,
         sent := sent (s\<lparr> mNextMessageId := mNextMessageId s + 1 \<rparr>) @ [?c] \<rparr>"
    using send_frame by blast
  then show ?thesis
    by (intro exI[of _ t] exI[of _ c]) (simp add: place_bid_def SendInsertOrder_def Let_def)
qed

lemma place_ask_frame:
  "\<exists>t c. place_ask x m s =
     s\<lparr> mNextMessageId := mNextMessageId s + 1, mMessageTracker := t, clock := c,
        sent := sent s @ [InsertOrder (to_uint (mNextMessageId s)) SELL x (new_order_volume m) GOOD_FOR_DAY],
        heap := (heap s)(next_addr s \<mapsto>
                  \<lparr> price = x, volume = new_order_volume m, orderId = to_uint (mNextMessageId s) \<rparr>),
        next_addr := next_addr s + 1,
        mAskPrices := set_emplace x (mAskPrices s),
        mAskToOrder := (mAskToOrder s)(x \<mapsto> next_addr s),
        mAskOrderIdToOrder := (mAskOrderIdToOrder s)(to_uint (mNextMessageId s) \<mapsto> next_addr s) \<rparr>"
proof -
  let ?c = "InsertOrder (to_uint (mNextMessageId s)) SELL x (new_order_volume m) GOOD_FOR_DAY"
  obtain t c where "send ?c (s\<lparr> mNextMessageId := mNextMessageId s + 1 \<rparr>) =
      s\<lparr> mNextMessageId := mNextMessageId s + 1 \<rparr>\<lparr> mMessageTracker := t, clock := c,
         sent := sent (s\<lparr> mNextMessageId := mNextMessageId s + 1 \<rparr>) @ [?c] \<rparr>"
    using send_frame by blast
  then show ?thesis
    by (intro exI[of _ t] exI[of _ c]) (simp add: place_ask_def SendInsertOrder_def Let_def)
qed

lemma place_bid_fields [simp]:
  "mNextMessageId (place_bid x m s) = mNextMessageId s + 1"
  "mPosition (place_bid x m s) = mPosition s"
  "mBidPrices (place_bid x m s) = set_emplace x (mBidPrices s)"
  "mAskPrices (place_bid x m s) = mAskPrices s"
  "mBidToOrder (place_bid x m s) = (mBidToOrder s)(x \<mapsto> next_addr s)"
  "mBidOrderIdToOrder (place_bid x m s) = (mBidOrderIdToOrder s)(to_uint (mNextMessageId s) \<mapsto> next_addr s)"
  "mAskToOrder (place_bid x m s) = mAskToOrder s"
  "mAskOrderIdToOrder (place_bid x m s) = mAskOrderIdToOrder s"
  "heap (place_bid x m s) = (heap s)(next_addr s \<mapsto>
                  \<lparr> price = x, volume = new_order_volume m, orderId = to_uint (mNextMessageId s) \<rparr>)"
  "next_addr (place_bid x m s) = next_addr s + 1"
  "sent (place_bid x m s) = sent s @ [InsertOrder (to_uint (mNextMessageId s)) BUY x (new_order_volume m) GOOD_FOR_DAY]"
  using place_bid_frame[of x m s] by auto

lemma place_ask_fields [simp]:
  "mNextMessageId (place_ask x m s) = mNextMessageId s + 1"
  "mPosition (place_ask x m s) = mPosition s"
  "mAskPrices (place_ask x m s) = set_emplace x (mAskPrices s)"
  "mBidPrices (place_ask x m s) = mBidPrices s"
  "mAskToOrder (place_ask x m s) = (mAskToOrder s)(x \<mapsto> next_addr s)"
  "mAskOrderIdToOrder (place_ask x m s) = (mAskOrderIdToOrder s)(to_uint (mNextMessageId s) \<mapsto> next_addr s)"
  "mBidToOrder (place_ask x m s) = mBidToOrder s"
  "mBidOrderIdToOrder (place_ask x m s) = mBidOrderIdToOrder s"
  "heap (place_ask x m s) = (heap s)(next_addr s \<mapsto>
                  \<lparr> price = x, volume = new_order_volume m, orderId = to_uint (mNextMessageId s) \<rparr>)"
  "next_addr (place_ask x m s) = next_addr s + 1"
  "sent (place_ask x m s) = sent s @ [InsertOrder (to_uint (mNextMessageId s)) SELL x (new_order_volume m) GOOD_FOR_DAY]"
  using place_ask_frame[of x m s] by auto

lemma unat_to_uint: "unat (to_uint x) = unat x mod 2 ^ 32"
  by (simp add: to_uint_def unsigned_ucast_eq take_bit_eq_mod unat_mod)

lemma lt32_unat: "(x < (4294967296 :: ulong)) = (unat x < 4294967296)"
  by (simp add: word_less_nat_alt)

lemma to_uint_small: "x < 2 ^ 32 \<Longrightarrow> to_uint x = x"
  by (simp add: word_unat_eq_iff unat_to_uint lt32_unat)

lemma to_uint_lt: "to_uint x < 2 ^ 32"
  by (simp add: lt32_unat unat_to_uint)

lemma unat_succ32:
  fixes n :: ulong
  shows "n < 2 ^ 32 \<Longrightarrow> unat (n + 1) = unat n + 1"
  by (simp add: lt32_unat unat_word_ariths)

lemma word_less_succ:
  fixes i n :: ulong
  shows "i < n \<Longrightarrow> n < 2 ^ 32 \<Longrightarrow> i < n + 1"
  using unat_succ32[of n] by (simp add: word_less_nat_alt)

lemma word_lt_succ:
  fixes n :: ulong
  shows "n < 2 ^ 32 \<Longrightarrow> n < n + 1"
  using unat_succ32[of n] by (simp add: word_less_nat_alt)

lemma engine_inv_fresh:
  assumes "engine_inv s"
  shows "heap s (next_addr s) = None" "next_addr s \<noteq> 0"
    "mBidOrderIdToOrder s (mNextMessageId s) = None"
    "mAskOrderIdToOrder s (mNextMessageId s) = None"
proof -
  from assms have h: "\<forall>p. heap s p \<noteq> None \<longrightarrow> p < next_addr s" and z: "0 < next_addr s"
    and i: "\<forall>i \<in> dom (mBidOrderIdToOrder s) \<union> dom (mAskOrderIdToOrder s). i < mNextMessageId s"
    by (auto simp: engine_inv_def)
  show "heap s (next_addr s) = None" using h by (metis less_irrefl)
  show "next_addr s \<noteq> 0" using z by simp
  show "mBidOrderIdToOrder s (mNextMessageId s) = None" using i by (metis UnI1 domIff less_irrefl)
  show "mAskOrderIdToOrder s (mNextMessageId s) = None" using i by (metis UnI2 domIff less_irrefl)
qed

lemma engine_inv_place_bid:
  assumes inv: "engine_inv s" and x: "x \<notin> set (mBidPrices s)" "x < 2 ^ 32"
    and n: "mNextMessageId s < 2 ^ 32"
  shows "engine_inv (place_bid x m s)"
proof -
  note f = engine_inv_fresh[OF inv]
  have u: "to_uint (mNextMessageId s) = mNextMessageId s" using n by (rule to_uint_small)
  from inv have cb: "side_consistent (mBidPrices s) (mBidToOrder s) (mBidOrderIdToOrder s) (heap s)"
    and ca: "side_consistent (mAskPrices s) (mAskToOrder s) (mAskOrderIdToOrder s) (heap s)"
    and pr: "\<forall>y \<in> set (mBidPrices s) \<union> set (mAskPrices s). y < 2 ^ 32"
    and ids: "\<forall>i \<in> dom (mBidOrderIdToOrder s) \<union> dom (mAskOrderIdToOrder s).
               i < 2 ^ 32 \<and> i < mNextMessageId s"
    and dj: "dom (mBidOrderIdToOrder s) \<inter> dom (mAskOrderIdToOrder s) = {}"
    and hp: "\<forall>p. heap s p \<noteq> None \<longrightarrow> p < next_addr s"
    by (simp_all add: engine_inv_def registry_consistent_def)
  have 1: "side_consistent (set_emplace x (mBidPrices s)) ((mBidToOrder s)(x \<mapsto> next_addr s))
             ((mBidOrderIdToOrder s)(mNextMessageId s \<mapsto> next_addr s))
             ((heap s)(next_addr s \<mapsto> \<lparr> price = x, volume = new_order_volume m,
                                          orderId = mNextMessageId s \<rparr>))"
    using cb x(1) f by (intro side_consistent_insert) simp_all
  have 2: "side_consistent (mAskPrices s) (mAskToOrder s) (mAskOrderIdToOrder s)
             ((heap s)(next_addr s \<mapsto> \<lparr> price = x, volume = new_order_volume m,
                                          orderId = mNextMessageId s \<rparr>))"
    using ca f by (intro side_consistent_heap_add) simp_all
  have 3: "\<forall>i \<in> insert (mNextMessageId s) (dom (mBidOrderIdToOrder s)) \<union> dom (mAskOrderIdToOrder s).
             i < 2 ^ 32 \<and> i < mNextMessageId s + 1"
    using ids n by (auto intro: word_less_succ[simplified] word_lt_succ[simplified])
  have 4: "insert (mNextMessageId s) (dom (mBidOrderIdToOrder s)) \<inter> dom (mAskOrderIdToOrder s) = {}"
    using dj f(4) by auto
  have 5: "\<forall>p. ((heap s)(next_addr s \<mapsto> \<lparr> price = x, volume = new_order_volume m,
                                          orderId = mNextMessageId s \<rparr>)) p \<noteq> None
              \<longrightarrow> p < next_addr s + 1"
    using hp by (auto simp: less_Suc_eq)
  show ?thesis
    unfolding engine_inv_def registry_consistent_def
    using 1 2 3 4 5 pr x(2) by (simp add: u set_emplace_props)
qed

lemma engine_inv_place_ask:
  assumes inv: "engine_inv s" and x: "x \<notin> set (mAskPrices s)" "x < 2 ^ 32"
    and n: "mNextMessageId s < 2 ^ 32"
  shows "engine_inv (place_ask x m s)"
proof -
  note f = engine_inv_fresh[OF inv]
  have u: "to_uint (mNextMessageId s) = mNextMessageId s" using n by (rule to_uint_small)
  from inv have cb: "side_consistent (mBidPrices s) (mBidToOrder s) (mBidOrderIdToOrder s) (heap s)"
    and ca: "side_consistent (mAskPrices s) (mAskToOrder s) (mAskOrderIdToOrder s) (heap s)"
    and pr: "\<forall>y \<in> set (mBidPrices s) \<union> set (mAskPrices s). y < 2 ^ 32"
    and ids: "\<forall>i \<in> dom (mBidOrderIdToOrder s) \<union> dom (mAskOrderIdToOrder s).
               i < 2 ^ 32 \<and> i < mNextMessageId s"
    and dj: "dom (mBidOrderIdToOrder s) \<inter> dom (mAskOrderIdToOrder s) = {}"
    and hp: "\<forall>p. heap s p \<noteq> None \<longrightarrow> p < next_addr s"
    by (simp_all add: engine_inv_def registry_consistent_def)
  have 1: "side_consistent (set_emplace x (mAskPrices s)) ((mAskToOrder s)(x \<mapsto> next_addr s))
             ((mAskOrderIdToOrder s)(mNextMessageId s \<mapsto> next_addr s))
             ((heap s)(next_addr s \<mapsto> \<lparr> price = x, volume = new_order_volume m,
                                          orderId = mNextMessageId s \<rparr>))"
    using ca x(1) f by (intro side_consistent_insert) simp_all
  have 2: "side_consistent (mBidPrices s) (mBidToOrder s) (mBidOrderIdToOrder s)
             ((heap s)(next_addr s \<mapsto> \<lparr> price = x, volume = new_order_volume m,
                                          orderId = mNextMessageId s \<rparr>))"
    using cb f by (intro side_consistent_heap_add) simp_all
  have 3: "\<forall>i \<in> dom (mBidOrderIdToOrder s) \<union> insert (mNextMessageId s) (dom (mAskOrderIdToOrder s)).
             i < 2 ^ 32 \<and> i < mNextMessageId s + 1"
    using ids n by (auto intro: word_less_succ[simplified] word_lt_succ[simplified])
  have 4: "dom (mBidOrderIdToOrder s) \<inter> insert (mNextMessageId s) (dom (mAskOrderIdToOrder s)) = {}"
    using dj f(3) by auto
  have 5: "\<forall>p. ((heap s)(next_addr s \<mapsto> \<lparr> price = x, volume = new_order_volume m,
                                          orderId = mNextMessageId s \<rparr>)) p \<noteq> None
              \<longrightarrow> p < next_addr s + 1"
    using hp by (auto simp: less_Suc_eq)
  show ?thesis
    unfolding engine_inv_def registry_consistent_def
    using 1 2 3 4 5 pr x(2) by (simp add: u set_emplace_props)
qed

subsection \<open>The insert loops\<close>

lemma insert_bids_stop:
  "\<not> (offset < NUM_CLONES \<and> sint m > 0 \<and> n > 0) \<Longrightarrow> insert_bids f offset m n s = (s, m, n)"
  by (subst insert_bids.simps) auto

lemma insert_bids_skip:
  "offset < NUM_CLONES \<Longrightarrow> sint m > 0 \<Longrightarrow> n > 0 \<Longrightarrow> bid_level f offset \<in> set (mBidPrices s) \<Longrightarrow>
   insert_bids f offset m n s = insert_bids f (offset + 1) m n s"
  by (subst insert_bids.simps) (simp add: bid_level_def)

lemma insert_bids_new:
  "offset < NUM_CLONES \<Longrightarrow> sint m > 0 \<Longrightarrow> n > 0 \<Longrightarrow> bid_level f offset \<notin> set (mBidPrices s) \<Longrightarrow>
   insert_bids f offset m n s =
     insert_bids f (offset + 1) (m - new_order_volume m) (n - 1) (place_bid (bid_level f offset) m s)"
  by (subst insert_bids.simps) (simp add: bid_level_def)

lemma insert_asks_stop:
  "\<not> (offset < NUM_CLONES \<and> sint m > 0 \<and> n > 0) \<Longrightarrow> insert_asks f offset m n s = (s, m, n)"
  by (subst insert_asks.simps) auto

lemma insert_asks_skip:
  "offset < NUM_CLONES \<Longrightarrow> sint m > 0 \<Longrightarrow> n > 0 \<Longrightarrow> ask_level f offset \<in> set (mAskPrices s) \<Longrightarrow>
   insert_asks f offset m n s = insert_asks f (offset + 1) m n s"
  by (subst insert_asks.simps) (simp add: ask_level_def)

lemma insert_asks_new:
  "offset < NUM_CLONES \<Longrightarrow> sint m > 0 \<Longrightarrow> n > 0 \<Longrightarrow> ask_level f offset \<notin> set (mAskPrices s) \<Longrightarrow>
   insert_asks f offset m n s =
     insert_asks f (offset + 1) (m - new_order_volume m) (n - 1) (place_ask (ask_level f offset) m s)"
  by (subst insert_asks.simps) (simp add: ask_level_def)

text \<open>A case rule for one turn of each loop.\<close>

lemma insert_bids_cases:
  obtains (stop) "\<not> (offset < NUM_CLONES \<and> sint m > 0 \<and> n > 0)"
      "insert_bids f offset m n s = (s, m, n)"
  | (skip) "offset < NUM_CLONES" "sint m > 0" "n > 0" "bid_level f offset \<in> set (mBidPrices s)"
      "insert_bids f offset m n s = insert_bids f (offset + 1) m n s"
  | (new) "offset < NUM_CLONES" "sint m > 0" "n > 0" "bid_level f offset \<notin> set (mBidPrices s)"
      "insert_bids f offset m n s =
         insert_bids f (offset + 1) (m - new_order_volume m) (n - 1) (place_bid (bid_level f offset) m s)"
  using insert_bids_stop insert_bids_skip insert_bids_new by blast

lemma insert_asks_cases:
  obtains (stop) "\<not> (offset < NUM_CLONES \<and> sint m > 0 \<and> n > 0)"
      "insert_asks f offset m n s = (s, m, n)"
  | (skip) "offset < NUM_CLONES" "sint m > 0" "n > 0" "ask_level f offset \<in> set (mAskPrices s)"
      "insert_asks f offset m n s = insert_asks f (offset + 1) m n s"
  | (new) "offset < NUM_CLONES" "sint m > 0" "n > 0" "ask_level f offset \<notin> set (mAskPrices s)"
      "insert_asks f offset m n s =
         insert_asks f (offset + 1) (m - new_order_volume m) (n - 1) (place_ask (ask_level f offset) m s)"
  using insert_asks_stop insert_asks_skip insert_asks_new by blast

lemma bid_level_lt: "bid_level f k < 2 ^ 32"
  by (simp add: bid_level_def to_uint_lt[simplified])

lemma ask_level_lt: "ask_level f k < 2 ^ 32"
  by (simp add: ask_level_def to_uint_lt[simplified])

lemma insert_bids_inv:
  assumes "engine_inv s" and "unat (mNextMessageId s) + (NUM_CLONES - offset) \<le> 2 ^ 32"
    and "insert_bids f offset m n s = (s', m', n')"
  shows "engine_inv s' \<and> mPosition s' = mPosition s \<and>
         unat (mNextMessageId s') \<le> unat (mNextMessageId s) + (NUM_CLONES - offset)"
  using assms
proof (induction "NUM_CLONES - offset" arbitrary: offset m n s)
  case 0
  then have "insert_bids f offset m n s = (s, m, n)" by (intro insert_bids_stop) simp
  with 0 show ?case by simp
next
  case (Suc k)
  show ?case
  proof (cases rule: insert_bids_cases[of offset m n f s])
    case stop
    with Suc.prems show ?thesis by simp
  next
    case skip
    have k: "k = NUM_CLONES - (offset + 1)" using Suc.hyps(2) by simp
    have e: "insert_bids f (offset + 1) m n s = (s', m', n')" using skip(5) Suc.prems(3) by simp
    have b: "unat (mNextMessageId s) + (NUM_CLONES - (offset + 1)) \<le> 2 ^ 32"
      using Suc.prems(2) by simp
    from Suc.hyps(1)[OF k Suc.prems(1) b e] show ?thesis by auto
  next
    case new
    have k: "k = NUM_CLONES - (offset + 1)" using Suc.hyps(2) by simp
    have lt: "mNextMessageId s < 2 ^ 32"
      using Suc.prems(2) Suc.hyps(2) by (simp add: lt32_unat)
    have i: "engine_inv (place_bid (bid_level f offset) m s)"
      using Suc.prems(1) new(4) bid_level_lt lt by (intro engine_inv_place_bid)
    have u: "unat (mNextMessageId (place_bid (bid_level f offset) m s)) = unat (mNextMessageId s) + 1"
      using lt by (simp add: unat_succ32)
    have e: "insert_bids f (offset + 1) (m - new_order_volume m) (n - 1) (place_bid (bid_level f offset) m s)
               = (s', m', n')"
      using new(5) Suc.prems(3) by simp
    have b: "unat (mNextMessageId (place_bid (bid_level f offset) m s)) + (NUM_CLONES - (offset + 1)) \<le> 2 ^ 32"
      using Suc.prems(2) Suc.hyps(2) u by simp
    from Suc.hyps(1)[OF k i b e] u Suc.hyps(2) show ?thesis by auto
  qed
qed

lemma insert_asks_inv:
  assumes "engine_inv s" and "unat (mNextMessageId s) + (NUM_CLONES - offset) \<le> 2 ^ 32"
    and "insert_asks f offset m n s = (s', m', n')"
  shows "engine_inv s' \<and> mPosition s' = mPosition s \<and>
         unat (mNextMessageId s') \<le> unat (mNextMessageId s) + (NUM_CLONES - offset)"
  using assms
proof (induction "NUM_CLONES - offset" arbitrary: offset m n s)
  case 0
  then have "insert_asks f offset m n s = (s, m, n)" by (intro insert_asks_stop) simp
  with 0 show ?case by simp
next
  case (Suc k)
  show ?case
  proof (cases rule: insert_asks_cases[of offset m n f s])
    case stop
    with Suc.prems show ?thesis by simp
  next
    case skip
    have k: "k = NUM_CLONES - (offset + 1)" using Suc.hyps(2) by simp
    have e: "insert_asks f (offset + 1) m n s = (s', m', n')" using skip(5) Suc.prems(3) by simp
    have b: "unat (mNextMessageId s) + (NUM_CLONES - (offset + 1)) \<le> 2 ^ 32"
      using Suc.prems(2) by simp
    from Suc.hyps(1)[OF k Suc.prems(1) b e] show ?thesis by auto
  next
    case new
    have k: "k = NUM_CLONES - (offset + 1)" using Suc.hyps(2) by simp
    have lt: "mNextMessageId s < 2 ^ 32"
      using Suc.prems(2) Suc.hyps(2) by (simp add: lt32_unat)
    have i: "engine_inv (place_ask (ask_level f offset) m s)"
      using Suc.prems(1) new(4) ask_level_lt lt by (intro engine_inv_place_ask)
    have u: "unat (mNextMessageId (place_ask (ask_level f offset) m s)) = unat (mNextMessageId s) + 1"
      using lt by (simp add: unat_succ32)
    have e: "insert_asks f (offset + 1) (m - new_order_volume m) (n - 1) (place_ask (ask_level f offset) m s)
               = (s', m', n')"
      using new(5) Suc.prems(3) by simp
    have b: "unat (mNextMessageId (place_ask (ask_level f offset) m s)) + (NUM_CLONES - (offset + 1)) \<le> 2 ^ 32"
      using Suc.prems(2) Suc.hyps(2) u by simp
    from Suc.hyps(1)[OF k i b e] u Suc.hyps(2) show ?thesis by auto
  qed
qed

subsection \<open>The invariant through the handlers\<close>

lemma inv_bid_pre:
  assumes "engine_inv s"
  shows "\<forall>x\<in>set (mBidPrices s). to_uint x = x \<and> order_at (mBidToOrder s) (heap s) x \<noteq> None"
proof
  fix x assume x: "x \<in> set (mBidPrices s)"
  from assms have "registry_consistent s" and "x < 2 ^ 32"
    using x by (auto simp: engine_inv_def)
  then show "to_uint x = x \<and> order_at (mBidToOrder s) (heap s) x \<noteq> None"
    using order_at_bid[of s x] x by (auto simp: to_uint_small)
qed

lemma inv_ask_pre:
  assumes "engine_inv s"
  shows "\<forall>x\<in>set (mAskPrices s). to_uint x = x \<and> order_at (mAskToOrder s) (heap s) x \<noteq> None"
proof
  fix x assume x: "x \<in> set (mAskPrices s)"
  from assms have "registry_consistent s" and "x < 2 ^ 32"
    using x by (auto simp: engine_inv_def)
  then show "to_uint x = x \<and> order_at (mAskToOrder s) (heap s) x \<noteq> None"
    using order_at_ask[of s x] x by (auto simp: to_uint_small)
qed

lemma adjust_bid_side_inv:
  assumes inv: "engine_inv s" and n: "unat (mNextMessageId s) + NUM_CLONES \<le> 2 ^ 32"
  shows "\<exists>s' n'. adjust_bid_side b a adj k s = Some (s', n') \<and> engine_inv s' \<and>
           mPosition s' = mPosition s \<and>
           unat (mNextMessageId s') \<le> unat (mNextMessageId s) + NUM_CLONES"
proof (cases "b = 0")
  case True
  then show ?thesis using inv by (simp add: adjust_bid_side_def)
next
  case False
  let ?f = "frontBid_of b a adj"
  let ?m = "(word_of_int POSITION_LIMIT :: long) - mPosition s"
  from scan_bids_sent[OF inv_bid_pre[OF inv], of ?f ?m]
  obtain t c m1 where sc: "scan_bids ?f (mBidPrices s) (s, ?m) =
      Some (s\<lparr> mMessageTracker := t, clock := c,
               sent := sent s @ map (\<lambda>x. CancelOrder (id_at (mBidToOrder s) (heap s) x))
                                  (filter (bid_out_of_band ?f) (mBidPrices s)) \<rparr>, m1)"
    by blast
  let ?s1 = "s\<lparr> mMessageTracker := t, clock := c,
               sent := sent s @ map (\<lambda>x. CancelOrder (id_at (mBidToOrder s) (heap s) x))
                                  (filter (bid_out_of_band ?f) (mBidPrices s)) \<rparr>"
  obtain s2 m2 n2 where ins: "insert_bids ?f 0 m1 k ?s1 = (s2, m2, n2)"
    by (cases "insert_bids ?f 0 m1 k ?s1") auto
  have i1: "engine_inv ?s1" using inv by simp
  have b1: "unat (mNextMessageId ?s1) + (NUM_CLONES - 0) \<le> 2 ^ 32" using n by simp
  from insert_bids_inv[OF i1 b1 ins]
  have "engine_inv s2 \<and> mPosition s2 = mPosition s \<and>
        unat (mNextMessageId s2) \<le> unat (mNextMessageId s) + NUM_CLONES" by simp
  moreover have "adjust_bid_side b a adj k s = Some (s2, n2)"
    using False sc ins by (simp add: adjust_bid_side_def Let_def)
  ultimately show ?thesis by blast
qed

lemma adjust_ask_side_inv:
  assumes inv: "engine_inv s" and n: "unat (mNextMessageId s) + NUM_CLONES \<le> 2 ^ 32"
  shows "\<exists>s' n'. adjust_ask_side b a adj k s = Some (s', n') \<and> engine_inv s' \<and>
           mPosition s' = mPosition s \<and>
           unat (mNextMessageId s') \<le> unat (mNextMessageId s) + NUM_CLONES"
proof (cases "a = 0")
  case True
  then show ?thesis using inv by (simp add: adjust_ask_side_def)
next
  case False
  let ?f = "frontAsk_of b a adj"
  let ?m = "(word_of_int POSITION_LIMIT :: long) + mPosition s"
  from scan_asks_sent[OF inv_ask_pre[OF inv], of ?f ?m]
  obtain t c m1 where sc: "scan_asks ?f (mAskPrices s) (s, ?m) =
      Some (s\<lparr> mMessageTracker := t, clock := c,
               sent := sent s @ map (\<lambda>x. CancelOrder (id_at (mAskToOrder s) (heap s) x))
                                  (filter (ask_out_of_band ?f) (mAskPrices s)) \<rparr>, m1)"
    by blast
  let ?s1 = "s\<lparr> mMessageTracker := t, clock := c,
               sent := sent s @ map (\<lambda>x. CancelOrder (id_at (mAskToOrder s) (heap s) x))
                                  (filter (ask_out_of_band ?f) (mAskPrices s)) \<rparr>"
  obtain s2 m2 n2 where ins: "insert_asks ?f 0 m1 k ?s1 = (s2, m2, n2)"
    by (cases "insert_asks ?f 0 m1 k ?s1") auto
  have i1: "engine_inv ?s1" using inv by simp
  have b1: "unat (mNextMessageId ?s1) + (NUM_CLONES - 0) \<le> 2 ^ 32" using n by simp
  from insert_asks_inv[OF i1 b1 ins]
  have "engine_inv s2 \<and> mPosition s2 = mPosition s \<and>
        unat (mNextMessageId s2) \<le> unat (mNextMessageId s) + NUM_CLONES" by simp
  moreover have "adjust_ask_side b a adj k s = Some (s2, n2)"
    using False sc ins by (simp add: adjust_ask_side_def Let_def)
  ultimately show ?thesis by blast
qed

lemma OrderBookMessageHandler_inv:
  assumes inv: "engine_inv s" and n: "unat (mNextMessageId s) + ids_per_event \<le> 2 ^ 32"
    and pa: "priceAdjustment_of (mPosition s) \<noteq> None \<or> i \<noteq> FUTURE"
  shows "\<exists>s'. OrderBookMessageHandler i sq ap av bp bv s = Some s' \<and> engine_inv s' \<and>
           mPosition s' = mPosition s \<and>
           unat (mNextMessageId s') \<le> unat (mNextMessageId s) + ids_per_event"
proof (cases "i = FUTURE")
  case False
  then show ?thesis using inv by (simp add: OrderBookMessageHandler_def)
next
  case True
  with pa obtain adj where adj: "priceAdjustment_of (mPosition s) = Some adj" by auto
  from cancel_arbitragable_bids_sent[of "mBidPrices s" s "ap 0"] inv_bid_pre[OF inv]
  obtain t1 c1 o1 where 1: "cancel_arbitragable_bids (ap 0) (mBidPrices s) s =
     Some (s\<lparr> mMessageTracker := t1, clock := c1, sent := o1 \<rparr>)"
    by blast
  let ?s1 = "s\<lparr> mMessageTracker := t1, clock := c1, sent := o1 \<rparr>"
  have i1: "engine_inv ?s1" using inv by simp
  from cancel_arbitragable_asks_sent[of "mAskPrices ?s1" ?s1 "bp 0"] inv_ask_pre[OF i1]
  obtain t2 c2 o2 where 2: "cancel_arbitragable_asks (bp 0) (mAskPrices ?s1) ?s1 =
     Some (s\<lparr> mMessageTracker := t2, clock := c2, sent := o2 \<rparr>)"
    by auto
  let ?s2 = "s\<lparr> mMessageTracker := t2, clock := c2, sent := o2 \<rparr>"
  obtain t3 k where 3: "GetNonCancelMessagesAllowed (clock ?s2) (mMessageTracker ?s2) = (t3, k)"
    by (cases "GetNonCancelMessagesAllowed (clock ?s2) (mMessageTracker ?s2)")
  let ?s3 = "?s2\<lparr> mMessageTracker := t3 \<rparr>"
  have i3: "engine_inv ?s3" using inv by simp
  have b3: "unat (mNextMessageId ?s3) + NUM_CLONES \<le> 2 ^ 32"
    using n by (simp add: ids_per_event_def)
  from adjust_bid_side_inv[OF i3 b3, of "bp 0" "ap 0" adj k]
  obtain s4 k4 where 4: "adjust_bid_side (bp 0) (ap 0) adj k ?s3 = Some (s4, k4)"
    and i4: "engine_inv s4" and b4: "unat (mNextMessageId s4) \<le> unat (mNextMessageId s) + NUM_CLONES"
    and p4: "mPosition s4 = mPosition s"
    by auto
  have b4': "unat (mNextMessageId s4) + NUM_CLONES \<le> 2 ^ 32"
    using n b4 by (simp add: ids_per_event_def)
  from adjust_ask_side_inv[OF i4 b4', of "bp 0" "ap 0" adj k4]
  obtain s5 k5 where 5: "adjust_ask_side (bp 0) (ap 0) adj k4 s4 = Some (s5, k5)"
    and i5: "engine_inv s5" and b5: "unat (mNextMessageId s5) \<le> unat (mNextMessageId s4) + NUM_CLONES"
    and p5: "mPosition s5 = mPosition s4"
    by auto
  have "OrderBookMessageHandler i sq ap av bp bv s = Some s5"
    using True 1 2 3 4 5 adj by (simp add: OrderBookMessageHandler_def Let_def)
  then show ?thesis using i5 b4 b5 p4 p5 by (simp add: ids_per_event_def)
qed

lemma OrderFilledMessageHandler_frame:
  "\<exists>t c out. OrderFilledMessageHandler lo hi cid prc vol s =
     s\<lparr> mMessageTracker := t, clock := c, sent := out,
        mNextMessageId := mNextMessageId s + 1,
        mPosition := (if mBidOrderIdToOrder s cid \<noteq> None then mPosition s + vol else mPosition s - vol) \<rparr>"
proof -
  obtain t1 c1 where 1: "send (HedgeOrder (mNextMessageId s) SELL (of_nat (MIN_BID_NEAREST_TICK lo)) vol) s
    = s\<lparr> mMessageTracker := t1, clock := c1,
         sent := sent s @ [HedgeOrder (mNextMessageId s) SELL (of_nat (MIN_BID_NEAREST_TICK lo)) vol] \<rparr>"
    using send_frame by blast
  obtain t2 c2 where 2: "send (HedgeOrder (mNextMessageId s) BUY (of_nat (MAX_ASK_NEAREST_TICK hi)) vol) s
    = s\<lparr> mMessageTracker := t2, clock := c2,
         sent := sent s @ [HedgeOrder (mNextMessageId s) BUY (of_nat (MAX_ASK_NEAREST_TICK hi)) vol] \<rparr>"
    using send_frame by blast
  show ?thesis
  proof (cases "mBidOrderIdToOrder s cid \<noteq> None")
    case True
    then show ?thesis
      by (intro exI[of _ t1] exI[of _ c1]
            exI[of _ "sent s @ [HedgeOrder (mNextMessageId s) SELL (of_nat (MIN_BID_NEAREST_TICK lo)) vol]"])
         (simp add: OrderFilledMessageHandler_def SendHedgeOrder_def Let_def 1)
  next
    case False
    then show ?thesis
      by (intro exI[of _ t2] exI[of _ c2]
            exI[of _ "sent s @ [HedgeOrder (mNextMessageId s) BUY (of_nat (MAX_ASK_NEAREST_TICK hi)) vol]"])
         (simp add: OrderFilledMessageHandler_def SendHedgeOrder_def Let_def 2)
  qed
qed

lemma engine_inv_next_id:
  assumes "engine_inv s" "mNextMessageId s < 2 ^ 32"
  shows "engine_inv (s\<lparr> mNextMessageId := mNextMessageId s + 1 \<rparr>)"
  using assms unfolding engine_inv_def registry_consistent_def
  by (auto intro: word_less_succ[simplified])

lemma engine_inv_position [simp]:
  "engine_inv (s\<lparr> mPosition := p \<rparr>) = engine_inv s"
  by (simp add: engine_inv_def registry_consistent_def)

lemma OrderFilledMessageHandler_inv:
  assumes "engine_inv s" "mNextMessageId s < 2 ^ 32"
  shows "engine_inv (OrderFilledMessageHandler lo hi cid prc vol s) \<and>
         unat (mNextMessageId (OrderFilledMessageHandler lo hi cid prc vol s)) = unat (mNextMessageId s) + 1"
proof -
  from OrderFilledMessageHandler_frame[of lo hi cid prc vol s] obtain t c out where
    e: "OrderFilledMessageHandler lo hi cid prc vol s =
     s\<lparr> mMessageTracker := t, clock := c, sent := out,
        mNextMessageId := mNextMessageId s + 1,
        mPosition := (if mBidOrderIdToOrder s cid \<noteq> None then mPosition s + vol else mPosition s - vol) \<rparr>"
    by blast
  let ?s0 = "s\<lparr> mMessageTracker := t, clock := c, sent := out \<rparr>"
  have "engine_inv (?s0\<lparr> mNextMessageId := mNextMessageId ?s0 + 1 \<rparr>)"
    using assms by (intro engine_inv_next_id) simp_all
  then show ?thesis using assms(2) by (simp add: e unat_succ32)
qed

lemma bid_ask_pointers_disjoint:
  assumes inv: "engine_inv s" and b: "mBidOrderIdToOrder s i = Some p"
  shows "p \<notin> ran (mAskToOrder s)"
proof
  assume "p \<in> ran (mAskToOrder s)"
  then obtain y where y: "mAskToOrder s y = Some p" by (auto simp: ran_def)
  from inv have cb: "side_consistent (mBidPrices s) (mBidToOrder s) (mBidOrderIdToOrder s) (heap s)"
    and ca: "side_consistent (mAskPrices s) (mAskToOrder s) (mAskOrderIdToOrder s) (heap s)"
    and dj: "dom (mBidOrderIdToOrder s) \<inter> dom (mAskOrderIdToOrder s) = {}"
    by (simp_all add: engine_inv_def registry_consistent_def)
  from cb b obtain ord where o: "heap s p = Some ord" "orderId ord = i"
    unfolding side_consistent_def by blast
  from ca y obtain ord' where o': "heap s p = Some ord'" "mAskOrderIdToOrder s (orderId ord') = Some p"
    unfolding side_consistent_def by blast
  from o o' have "i \<in> dom (mAskOrderIdToOrder s)" by auto
  moreover have "i \<in> dom (mBidOrderIdToOrder s)" using b by auto
  ultimately show False using dj by auto
qed

lemma ask_bid_pointers_disjoint:
  assumes inv: "engine_inv s" and b: "mAskOrderIdToOrder s i = Some p"
  shows "p \<notin> ran (mBidToOrder s)"
proof
  assume "p \<in> ran (mBidToOrder s)"
  then obtain y where y: "mBidToOrder s y = Some p" by (auto simp: ran_def)
  from inv have cb: "side_consistent (mBidPrices s) (mBidToOrder s) (mBidOrderIdToOrder s) (heap s)"
    and ca: "side_consistent (mAskPrices s) (mAskToOrder s) (mAskOrderIdToOrder s) (heap s)"
    and dj: "dom (mBidOrderIdToOrder s) \<inter> dom (mAskOrderIdToOrder s) = {}"
    by (simp_all add: engine_inv_def registry_consistent_def)
  from ca b obtain ord where o: "heap s p = Some ord" "orderId ord = i"
    unfolding side_consistent_def by blast
  from cb y obtain ord' where o': "heap s p = Some ord'" "mBidOrderIdToOrder s (orderId ord') = Some p"
    unfolding side_consistent_def by blast
  from o o' have "i \<in> dom (mBidOrderIdToOrder s)" by auto
  moreover have "i \<in> dom (mAskOrderIdToOrder s)" using b by auto
  ultimately show False using dj by auto
qed

text \<open>A terminal status for a bid order takes it out of the three bid views.\<close>

lemma status_zero_bid:
  assumes inv: "engine_inv s" and b: "mBidOrderIdToOrder s cid = Some p"
  shows "\<exists>ord. heap s p = Some ord \<and> orderId ord = cid \<and> mBidToOrder s (price ord) = Some p \<and>
           OrderStatusMessageHandler cid fv 0 fees s =
             Some (s\<lparr> mBidOrderIdToOrder := (mBidOrderIdToOrder s)(cid := None),
                      mBidToOrder := (mBidToOrder s)(price ord := None),
                      mBidPrices := set_erase (price ord) (mBidPrices s),
                      heap := (heap s)(p := None) \<rparr>) \<and>
           engine_inv (s\<lparr> mBidOrderIdToOrder := (mBidOrderIdToOrder s)(cid := None),
                      mBidToOrder := (mBidToOrder s)(price ord := None),
                      mBidPrices := set_erase (price ord) (mBidPrices s),
                      heap := (heap s)(p := None) \<rparr>)"
proof -
  from inv have cb: "side_consistent (mBidPrices s) (mBidToOrder s) (mBidOrderIdToOrder s) (heap s)"
    and ca: "side_consistent (mAskPrices s) (mAskToOrder s) (mAskOrderIdToOrder s) (heap s)"
    and rest: "\<forall>y \<in> set (mBidPrices s) \<union> set (mAskPrices s). y < 2 ^ 32"
      "\<forall>i \<in> dom (mBidOrderIdToOrder s) \<union> dom (mAskOrderIdToOrder s). i < 2 ^ 32 \<and> i < mNextMessageId s"
      "dom (mBidOrderIdToOrder s) \<inter> dom (mAskOrderIdToOrder s) = {}"
      "0 < next_addr s" "\<forall>p. heap s p \<noteq> None \<longrightarrow> p < next_addr s"
    by (simp_all add: engine_inv_def registry_consistent_def)
  from cb b obtain ord where o: "heap s p = Some ord" "orderId ord = cid"
    "mBidToOrder s (price ord) = Some p" and p0: "p \<noteq> 0"
    unfolding side_consistent_def by blast
  have 1: "side_consistent (set_erase (price ord) (mBidPrices s)) ((mBidToOrder s)(price ord := None))
             ((mBidOrderIdToOrder s)(cid := None)) ((heap s)(p := None))"
    using cb b o(1) by (rule side_consistent_erase)
  have 2: "side_consistent (mAskPrices s) (mAskToOrder s) (mAskOrderIdToOrder s) ((heap s)(p := None))"
    using ca bid_ask_pointers_disjoint[OF inv b] by (rule side_consistent_heap_del)
  have e: "OrderStatusMessageHandler cid fv 0 fees s =
             Some (s\<lparr> mBidOrderIdToOrder := (mBidOrderIdToOrder s)(cid := None),
                      mBidToOrder := (mBidToOrder s)(price ord := None),
                      mBidPrices := set_erase (price ord) (mBidPrices s),
                      heap := (heap s)(p := None) \<rparr>)"
    using b o p0 by (simp add: OrderStatusMessageHandler_def Let_def)
  have "engine_inv (s\<lparr> mBidOrderIdToOrder := (mBidOrderIdToOrder s)(cid := None),
                      mBidToOrder := (mBidToOrder s)(price ord := None),
                      mBidPrices := set_erase (price ord) (mBidPrices s),
                      heap := (heap s)(p := None) \<rparr>)"
    unfolding engine_inv_def registry_consistent_def
    using 1 2 rest by (auto simp: set_erase_props)
  with e o show ?thesis by blast
qed

lemma status_zero_ask:
  assumes inv: "engine_inv s" and nb: "mBidOrderIdToOrder s cid = None"
    and b: "mAskOrderIdToOrder s cid = Some p"
  shows "\<exists>ord. heap s p = Some ord \<and> orderId ord = cid \<and> mAskToOrder s (price ord) = Some p \<and>
           OrderStatusMessageHandler cid fv 0 fees s =
             Some (s\<lparr> mAskOrderIdToOrder := (mAskOrderIdToOrder s)(cid := None),
                      mAskToOrder := (mAskToOrder s)(price ord := None),
                      mAskPrices := set_erase (price ord) (mAskPrices s),
                      heap := (heap s)(p := None) \<rparr>) \<and>
           engine_inv (s\<lparr> mAskOrderIdToOrder := (mAskOrderIdToOrder s)(cid := None),
                      mAskToOrder := (mAskToOrder s)(price ord := None),
                      mAskPrices := set_erase (price ord) (mAskPrices s),
                      heap := (heap s)(p := None) \<rparr>)"
proof -
  from inv have cb: "side_consistent (mBidPrices s) (mBidToOrder s) (mBidOrderIdToOrder s) (heap s)"
    and ca: "side_consistent (mAskPrices s) (mAskToOrder s) (mAskOrderIdToOrder s) (heap s)"
    and rest: "\<forall>y \<in> set (mBidPrices s) \<union> set (mAskPrices s). y < 2 ^ 32"
      "\<forall>i \<in> dom (mBidOrderIdToOrder s) \<union> dom (mAskOrderIdToOrder s). i < 2 ^ 32 \<and> i < mNextMessageId s"
      "dom (mBidOrderIdToOrder s) \<inter> dom (mAskOrderIdToOrder s) = {}"
      "0 < next_addr s" "\<forall>p. heap s p \<noteq> None \<longrightarrow> p < next_addr s"
    by (simp_all add: engine_inv_def registry_consistent_def)
  from ca b obtain ord where o: "heap s p = Some ord" "orderId ord = cid"
    "mAskToOrder s (price ord) = Some p" and p0: "p \<noteq> 0"
    unfolding side_consistent_def by blast
  have 1: "side_consistent (set_erase (price ord) (mAskPrices s)) ((mAskToOrder s)(price ord := None))
             ((mAskOrderIdToOrder s)(cid := None)) ((heap s)(p := None))"
    using ca b o(1) by (rule side_consistent_erase)
  have 2: "side_consistent (mBidPrices s) (mBidToOrder s) (mBidOrderIdToOrder s) ((heap s)(p := None))"
    using cb ask_bid_pointers_disjoint[OF inv b] by (rule side_consistent_heap_del)
  have e: "OrderStatusMessageHandler cid fv 0 fees s =
             Some (s\<lparr> mAskOrderIdToOrder := (mAskOrderIdToOrder s)(cid := None),
                      mAskToOrder := (mAskToOrder s)(price ord := None),
                      mAskPrices := set_erase (price ord) (mAskPrices s),
                      heap := (heap s)(p := None) \<rparr>)"
    using nb b o p0 by (simp add: OrderStatusMessageHandler_def Let_def)
  have "engine_inv (s\<lparr> mAskOrderIdToOrder := (mAskOrderIdToOrder s)(cid := None),
                      mAskToOrder := (mAskToOrder s)(price ord := None),
                      mAskPrices := set_erase (price ord) (mAskPrices s),
                      heap := (heap s)(p := None) \<rparr>)"
    unfolding engine_inv_def registry_consistent_def
    using 1 2 rest by (auto simp: set_erase_props)
  with e o show ?thesis by blast
qed

lemma engine_inv_volume:
  assumes inv: "engine_inv s" and o: "heap s p = Some ord"
  shows "engine_inv (s\<lparr> heap := (heap s)(p \<mapsto> ord\<lparr> volume := v \<rparr>) \<rparr>)"
proof -
  from inv have cb: "side_consistent (mBidPrices s) (mBidToOrder s) (mBidOrderIdToOrder s) (heap s)"
    and ca: "side_consistent (mAskPrices s) (mAskToOrder s) (mAskOrderIdToOrder s) (heap s)"
    and rest: "\<forall>y \<in> set (mBidPrices s) \<union> set (mAskPrices s). y < 2 ^ 32"
      "\<forall>i \<in> dom (mBidOrderIdToOrder s) \<union> dom (mAskOrderIdToOrder s). i < 2 ^ 32 \<and> i < mNextMessageId s"
      "dom (mBidOrderIdToOrder s) \<inter> dom (mAskOrderIdToOrder s) = {}"
      "0 < next_addr s" "\<forall>p. heap s p \<noteq> None \<longrightarrow> p < next_addr s"
    by (simp_all add: engine_inv_def registry_consistent_def)
  have "p < next_addr s" using rest(5) o by auto
  then show ?thesis
    unfolding engine_inv_def registry_consistent_def
    using side_consistent_volume[OF cb o, of v] side_consistent_volume[OF ca o, of v] rest
    by auto
qed

lemma OrderStatusMessageHandler_inv:
  assumes inv: "engine_inv s"
  shows "\<exists>s'. OrderStatusMessageHandler cid fv rv fees s = Some s' \<and> engine_inv s' \<and>
           mNextMessageId s' = mNextMessageId s \<and> mPosition s' = mPosition s \<and> sent s' = sent s"
proof (cases "mBidOrderIdToOrder s cid")
  case (Some p)
  show ?thesis
  proof (cases "rv = 0")
    case True
    from status_zero_bid[OF inv Some, of fv fees] show ?thesis unfolding True by auto
  next
    case False
    from inv Some obtain ord where o: "heap s p = Some ord" and p0: "p \<noteq> 0"
      unfolding engine_inv_def registry_consistent_def side_consistent_def by blast
    have "OrderStatusMessageHandler cid fv rv fees s =
            Some (s\<lparr> heap := (heap s)(p \<mapsto> ord\<lparr> volume := rv \<rparr>) \<rparr>)"
      using Some False o p0 by (simp add: OrderStatusMessageHandler_def deref_def)
    then show ?thesis using engine_inv_volume[OF inv o, of rv] by simp
  qed
next
  case None
  note nb = None
  show ?thesis
  proof (cases "mAskOrderIdToOrder s cid")
    case None
    then show ?thesis using nb inv by (simp add: OrderStatusMessageHandler_def)
  next
    case (Some p)
    show ?thesis
    proof (cases "rv = 0")
      case True
      from status_zero_ask[OF inv nb Some, of fv fees] show ?thesis unfolding True by auto
    next
      case False
      from inv Some obtain ord where o: "heap s p = Some ord" and p0: "p \<noteq> 0"
        unfolding engine_inv_def registry_consistent_def side_consistent_def by blast
      have "OrderStatusMessageHandler cid fv rv fees s =
              Some (s\<lparr> heap := (heap s)(p \<mapsto> ord\<lparr> volume := rv \<rparr>) \<rparr>)"
        using Some nb False o p0 by (simp add: OrderStatusMessageHandler_def deref_def)
      then show ?thesis using engine_inv_volume[OF inv o, of rv] by simp
    qed
  qed
qed

lemma ErrorMessageHandler_inv:
  assumes inv: "engine_inv s"
  shows "\<exists>s'. ErrorMessageHandler cid msg s = Some s' \<and> engine_inv s' \<and>
           mNextMessageId s' = mNextMessageId s \<and> mPosition s' = mPosition s \<and> sent s' = sent s"
  using OrderStatusMessageHandler_inv[OF inv, of cid 0 0 0] inv
  by (auto simp: ErrorMessageHandler_def)

lemma new_AutoTrader_fields:
  "mNextMessageId new_AutoTrader = 1" "mPosition new_AutoTrader = 0"
  "mBidPrices new_AutoTrader = []" "mAskPrices new_AutoTrader = []"
  "mBidToOrder new_AutoTrader = Map.empty" "mBidOrderIdToOrder new_AutoTrader = Map.empty"
  "mAskToOrder new_AutoTrader = Map.empty" "mAskOrderIdToOrder new_AutoTrader = Map.empty"
  "heap new_AutoTrader = Map.empty" "next_addr new_AutoTrader = 1" "sent new_AutoTrader = []"
  by (simp_all add: new_AutoTrader_def)

lemma new_AutoTrader_inv: "engine_inv new_AutoTrader"
  unfolding engine_inv_def registry_consistent_def side_consistent_def
  by (simp add: new_AutoTrader_fields)

lemma abs_sint_fill:
  fixes pos vol :: "64 word"
  assumes "\<bar>sint pos\<bar> + uint vol \<le> 2 ^ 31"
  shows "\<bar>sint (pos + vol)\<bar> \<le> \<bar>sint pos\<bar> + uint vol"
    and "\<bar>sint (pos - vol)\<bar> \<le> \<bar>sint pos\<bar> + uint vol"
proof -
  have u: "0 \<le> uint vol" by simp
  have "sint (pos + vol) = sint pos + uint vol"
    using assms u by (intro sint_plus_uint) simp
  then show "\<bar>sint (pos + vol)\<bar> \<le> \<bar>sint pos\<bar> + uint vol" using u by linarith
  have "sint (pos - vol) = sint pos - uint vol"
    using assms u by (intro sint_minus_uint) simp
  then show "\<bar>sint (pos - vol)\<bar> \<le> \<bar>sint pos\<bar> + uint vol" using u by linarith
qed

lemma handle_inv:
  assumes inv: "engine_inv s" and n: "unat (mNextMessageId s) + ids_per_event \<le> 2 ^ 32"
    and pos: "\<bar>sint (mPosition s)\<bar> + int (fill_volume e) \<le> 2 ^ 31"
  shows "\<exists>s'. handle lo hi e s = Some s' \<and> engine_inv s' \<and>
           unat (mNextMessageId s') \<le> unat (mNextMessageId s) + ids_per_event \<and>
           \<bar>sint (mPosition s')\<bar> \<le> \<bar>sint (mPosition s)\<bar> + int (fill_volume e)"
proof (cases e)
  case (OrderBookMessage i sq ap av bp bv)
  have "priceAdjustment_of (mPosition s) \<noteq> None"
    using pos by (intro priceAdjustment_defined) simp
  from OrderBookMessageHandler_inv[OF inv n, of i sq ap av bp bv] this
  show ?thesis using OrderBookMessage by auto
next
  case (OrderFilledMessage cid prc vol)
  have lt: "mNextMessageId s < 2 ^ 32" using n by (simp add: lt32_unat ids_per_event_def NUM_CLONES_def)
  from OrderFilledMessageHandler_frame[of lo hi cid prc vol s] obtain t c out where
    e: "OrderFilledMessageHandler lo hi cid prc vol s =
     s\<lparr> mMessageTracker := t, clock := c, sent := out,
        mNextMessageId := mNextMessageId s + 1,
        mPosition := (if mBidOrderIdToOrder s cid \<noteq> None then mPosition s + vol else mPosition s - vol) \<rparr>"
    by blast
  have p: "\<bar>sint (mPosition (OrderFilledMessageHandler lo hi cid prc vol s))\<bar>
            \<le> \<bar>sint (mPosition s)\<bar> + uint vol"
    using abs_sint_fill[of "mPosition s" vol] pos OrderFilledMessage by (simp add: e)
  from OrderFilledMessageHandler_inv[OF inv lt, of lo hi cid prc vol] p
  show ?thesis using OrderFilledMessage by (simp add: ids_per_event_def NUM_CLONES_def)
next
  case (OrderStatusMessage cid fv rv fees)
  from OrderStatusMessageHandler_inv[OF inv, of cid fv rv fees]
  show ?thesis using OrderStatusMessage by auto
next
  case (ErrorMessage cid msg)
  from ErrorMessageHandler_inv[OF inv, of cid msg]
  show ?thesis using ErrorMessage by auto
next
  case (HedgeFilledMessage cid prc vol)
  then show ?thesis using inv by (simp add: HedgeFilledMessageHandler_def)
next
  case (TradeTicksMessage i sq ap av bp bv)
  then show ?thesis using inv by (simp add: TradeTicksMessageHandler_def)
next
  case (Elapse d)
  then show ?thesis using inv by simp
qed

lemma OrderBookMessageHandler_undefined:
  assumes inv: "engine_inv s" and pa: "priceAdjustment_of (mPosition s) = None"
  shows "OrderBookMessageHandler FUTURE sq ap av bp bv s = None"
proof -
  from cancel_arbitragable_bids_sent[of "mBidPrices s" s "ap 0"] inv_bid_pre[OF inv]
  obtain t1 c1 o1 where 1: "cancel_arbitragable_bids (ap 0) (mBidPrices s) s =
     Some (s\<lparr> mMessageTracker := t1, clock := c1, sent := o1 \<rparr>)"
    by blast
  let ?s1 = "s\<lparr> mMessageTracker := t1, clock := c1, sent := o1 \<rparr>"
  have i1: "engine_inv ?s1" using inv by simp
  from cancel_arbitragable_asks_sent[of "mAskPrices ?s1" ?s1 "bp 0"] inv_ask_pre[OF i1]
  obtain t2 c2 o2 where 2: "cancel_arbitragable_asks (bp 0) (mAskPrices ?s1) ?s1 =
     Some (s\<lparr> mMessageTracker := t2, clock := c2, sent := o2 \<rparr>)"
    by auto
  show ?thesis using 1 2 pa by (simp add: OrderBookMessageHandler_def Let_def)
qed

lemma handle_inv_partial:
  assumes inv: "engine_inv s" and n: "unat (mNextMessageId s) + ids_per_event \<le> 2 ^ 32"
    and h: "handle lo hi e s = Some s'"
  shows "engine_inv s' \<and> unat (mNextMessageId s') \<le> unat (mNextMessageId s) + ids_per_event"
proof (cases e)
  case (OrderBookMessage i sq ap av bp bv)
  have "priceAdjustment_of (mPosition s) \<noteq> None \<or> i \<noteq> FUTURE"
    using OrderBookMessageHandler_undefined[OF inv, of sq ap av bp bv] h OrderBookMessage
    by (cases "i = FUTURE") auto
  from OrderBookMessageHandler_inv[OF inv n this, of sq ap av bp bv] h
  show ?thesis using OrderBookMessage by auto
next
  case (OrderFilledMessage cid prc vol)
  have lt: "mNextMessageId s < 2 ^ 32" using n by (simp add: lt32_unat ids_per_event_def NUM_CLONES_def)
  from OrderFilledMessageHandler_inv[OF inv lt, of lo hi cid prc vol] h
  show ?thesis using OrderFilledMessage by (auto simp add: ids_per_event_def NUM_CLONES_def)
next
  case (OrderStatusMessage cid fv rv fees)
  from OrderStatusMessageHandler_inv[OF inv, of cid fv rv fees] h
  show ?thesis using OrderStatusMessage by auto
next
  case (ErrorMessage cid msg)
  from ErrorMessageHandler_inv[OF inv, of cid msg] h
  show ?thesis using ErrorMessage by auto
next
  case (HedgeFilledMessage cid prc vol)
  then show ?thesis using inv h by (auto simp add: HedgeFilledMessageHandler_def)
next
  case (TradeTicksMessage i sq ap av bp bv)
  then show ?thesis using inv h by (auto simp add: TradeTicksMessageHandler_def)
next
  case (Elapse d)
  then show ?thesis using inv h by auto
qed

lemma run_inv:
  assumes "engine_inv s" and "unat (mNextMessageId s) + ids_per_event * length evs \<le> 2 ^ 32"
    and "run lo hi evs s = Some s'"
  shows "engine_inv s'"
  using assms
proof (induction evs arbitrary: s)
  case Nil
  then show ?case by simp
next
  case (Cons e evs)
  from Cons.prems(3) obtain s1 where h: "handle lo hi e s = Some s1" and r: "run lo hi evs s1 = Some s'"
    by (auto split: option.splits)
  have n: "unat (mNextMessageId s) + ids_per_event \<le> 2 ^ 32" using Cons.prems(2) by simp
  from handle_inv_partial[OF Cons.prems(1) n h]
  have i1: "engine_inv s1" and b1: "unat (mNextMessageId s1) \<le> unat (mNextMessageId s) + ids_per_event"
    by simp_all
  have "unat (mNextMessageId s1) + ids_per_event * length evs \<le> 2 ^ 32"
    using b1 Cons.prems(2) by simp
  from Cons.IH[OF i1 this r] show ?case .
qed

lemma run_defined:
  assumes "engine_inv s" and "unat (mNextMessageId s) + ids_per_event * length evs \<le> 2 ^ 32"
    and "\<bar>sint (mPosition s)\<bar> + int (sum_list (map fill_volume evs)) \<le> 2 ^ 31"
  shows "run lo hi evs s \<noteq> None"
  using assms
proof (induction evs arbitrary: s)
  case Nil
  then show ?case by simp
next
  case (Cons e evs)
  have n: "unat (mNextMessageId s) + ids_per_event \<le> 2 ^ 32" using Cons.prems(2) by simp
  have p: "\<bar>sint (mPosition s)\<bar> + int (fill_volume e) \<le> 2 ^ 31" using Cons.prems(3) by simp
  from handle_inv[OF Cons.prems(1) n p, of lo hi] obtain s1 where h: "handle lo hi e s = Some s1"
    and i1: "engine_inv s1"
    and b1: "unat (mNextMessageId s1) \<le> unat (mNextMessageId s) + ids_per_event"
    and p1: "\<bar>sint (mPosition s1)\<bar> \<le> \<bar>sint (mPosition s)\<bar> + int (fill_volume e)"
    by blast
  have "unat (mNextMessageId s1) + ids_per_event * length evs \<le> 2 ^ 32"
    using b1 Cons.prems(2) by simp
  moreover have "\<bar>sint (mPosition s1)\<bar> + int (sum_list (map fill_volume evs)) \<le> 2 ^ 31"
    using p1 Cons.prems(3) by simp
  ultimately have "run lo hi evs s1 \<noteq> None" using Cons.IH[OF i1] by blast
  then show ?case using h by simp
qed

text \<open>
  C6. Whatever events the engine has handled since it was started (order book updates,
  which insert orders, venue rejections, status updates with or without remaining volume,
  fills, hedge fills, trade ticks, the passing of time), on each side the ordered price
  set, the price-to-order map and the order-id-to-order map describe the same orders: the
  prices of the set are exactly the keys of the price map, every such key leads to a live
  order carrying that price, and the id map holds exactly these orders under their own
  ids. The run is over at most as many events as leave the 32-bit order ids unused, six
  ids an event; and the run is defined (no handler leaves defined behaviour) when the
  volumes of the fills sum to at most \<open>2 ^ 31\<close>.
\<close>

theorem C6_registry_views_agree:
  assumes "1 + ids_per_event * length evs \<le> 2 ^ 32"
  shows "(\<forall>s. run lo hi evs new_AutoTrader = Some s \<longrightarrow> registry_consistent s) \<and>
         (sum_list (map fill_volume evs) \<le> 2 ^ 31 \<longrightarrow> run lo hi evs new_AutoTrader \<noteq> None)"
proof (intro conjI allI impI)
  have n: "unat (mNextMessageId new_AutoTrader) + ids_per_event * length evs \<le> 2 ^ 32"
    using assms by (simp add: new_AutoTrader_fields)
  { fix s assume "run lo hi evs new_AutoTrader = Some s"
    from run_inv[OF new_AutoTrader_inv n this] show "registry_consistent s"
      by (simp add: engine_inv_def) }
  assume "sum_list (map fill_volume evs) \<le> 2 ^ 31"
  then have "\<bar>sint (mPosition new_AutoTrader)\<bar> + int (sum_list (map fill_volume evs)) \<le> 2 ^ 31"
    by (simp add: new_AutoTrader_fields)
  from run_defined[OF new_AutoTrader_inv n this] show "run lo hi evs new_AutoTrader \<noteq> None" .
qed

theorem C6_registry_views_agree_witness:
  "\<exists>s. run 1 2147483647
          [OrderBookMessage FUTURE 1 (top_only 10100) (top_only 5) (top_only 10000) (top_only 5),
           ErrorMessage 1 ''rejected'', OrderStatusMessage 4 10 0 0] new_AutoTrader = Some s \<and>
        registry_consistent s"
  using C6_registry_views_agree[of
          "[OrderBookMessage FUTURE 1 (top_only 10100) (top_only 5) (top_only 10000) (top_only 5),
           ErrorMessage 1 ''rejected'', OrderStatusMessage 4 10 0 0]" 1 2147483647]
  by (auto simp: ids_per_event_def NUM_CLONES_def)

subsection \<open>What one order book update sends\<close>

lemma id_at_bid_small:
  assumes "engine_inv s" "x \<in> set (mBidPrices s)"
  shows "to_uint (id_at (mBidToOrder s) (heap s) x) = id_at (mBidToOrder s) (heap s) x"
proof -
  from assms have rc: "registry_consistent s" by (simp add: engine_inv_def)
  from order_at_bid[OF rc assms(2)] obtain p ord where
    o: "mBidOrderIdToOrder s (orderId ord) = Some p" "order_at (mBidToOrder s) (heap s) x = Some ord"
    by blast
  then have "orderId ord \<in> dom (mBidOrderIdToOrder s)" by auto
  with assms(1) have "orderId ord < 2 ^ 32" unfolding engine_inv_def by blast
  then show ?thesis using o by (simp add: id_at_def to_uint_small)
qed

lemma id_at_ask_small:
  assumes "engine_inv s" "x \<in> set (mAskPrices s)"
  shows "to_uint (id_at (mAskToOrder s) (heap s) x) = id_at (mAskToOrder s) (heap s) x"
proof -
  from assms have rc: "registry_consistent s" by (simp add: engine_inv_def)
  from order_at_ask[OF rc assms(2)] obtain p ord where
    o: "mAskOrderIdToOrder s (orderId ord) = Some p" "order_at (mAskToOrder s) (heap s) x = Some ord"
    by blast
  then have "orderId ord \<in> dom (mAskOrderIdToOrder s)" by auto
  with assms(1) have "orderId ord < 2 ^ 32" unfolding engine_inv_def by blast
  then show ?thesis using o by (simp add: id_at_def to_uint_small)
qed

lemma arbitrage_bids_run:
  assumes inv: "engine_inv s"
  shows "\<exists>t c. cancel_arbitragable_bids a (mBidPrices s) s =
           Some (s\<lparr> mMessageTracker := t, clock := c, sent := sent s @ arb_bid_cancels a s \<rparr>)"
proof -
  have "map (\<lambda>x. CancelOrder (to_uint (id_at (mBidToOrder s) (heap s) x))) (filter (\<lambda>x. a < x) (mBidPrices s))
        = arb_bid_cancels a s"
    unfolding arb_bid_cancels_def using id_at_bid_small[OF inv] by (intro map_cong) auto
  then show ?thesis
    using cancel_arbitragable_bids_sent[of "mBidPrices s" s a] inv_bid_pre[OF inv] by auto
qed

lemma arbitrage_asks_run:
  assumes inv: "engine_inv s"
  shows "\<exists>t c. cancel_arbitragable_asks b (mAskPrices s) s =
           Some (s\<lparr> mMessageTracker := t, clock := c, sent := sent s @ arb_ask_cancels b s \<rparr>)"
proof -
  have "map (\<lambda>x. CancelOrder (to_uint (id_at (mAskToOrder s) (heap s) x))) (filter (\<lambda>x. x < b) (mAskPrices s))
        = arb_ask_cancels b s"
    unfolding arb_ask_cancels_def using id_at_ask_small[OF inv] by (intro map_cong) auto
  then show ?thesis
    using cancel_arbitragable_asks_sent[of "mAskPrices s" s b] inv_ask_pre[OF inv] by auto
qed

lemma arbitrage_bids_none:
  "\<forall>x\<in>set xs. \<not> a < x \<Longrightarrow> cancel_arbitragable_bids a xs s = Some s"
  by (induction xs) auto

lemma arbitrage_asks_none:
  "\<forall>x\<in>set xs. \<not> x < b \<Longrightarrow> cancel_arbitragable_asks b xs s = Some s"
  by (induction xs) auto

lemma scan_bids_run:
  assumes inv: "engine_inv s"
  shows "\<exists>t c. scan_bids f (mBidPrices s) (s, m) =
           Some (s\<lparr> mMessageTracker := t, clock := c, sent := sent s @ band_bid_cancels f s \<rparr>,
                 m - total_bid_volume s)"
  using scan_bids_sent[OF inv_bid_pre[OF inv], of f m]
  by (simp add: band_bid_cancels_def total_bid_volume_def)

lemma scan_asks_run:
  assumes inv: "engine_inv s"
  shows "\<exists>t c. scan_asks f (mAskPrices s) (s, m) =
           Some (s\<lparr> mMessageTracker := t, clock := c, sent := sent s @ band_ask_cancels f s \<rparr>,
                 m - total_ask_volume s)"
  using scan_asks_sent[OF inv_ask_pre[OF inv], of f m]
  by (simp add: band_ask_cancels_def total_ask_volume_def)

text \<open>The helper lists and sums only read the registry.\<close>

lemma registry_reads_frame [simp]:
  "arb_bid_cancels a (s\<lparr> mMessageTracker := t \<rparr>) = arb_bid_cancels a s"
  "arb_bid_cancels a (s\<lparr> clock := c \<rparr>) = arb_bid_cancels a s"
  "arb_bid_cancels a (s\<lparr> sent := out \<rparr>) = arb_bid_cancels a s"
  "arb_ask_cancels a (s\<lparr> mMessageTracker := t \<rparr>) = arb_ask_cancels a s"
  "arb_ask_cancels a (s\<lparr> clock := c \<rparr>) = arb_ask_cancels a s"
  "arb_ask_cancels a (s\<lparr> sent := out \<rparr>) = arb_ask_cancels a s"
  "band_bid_cancels a (s\<lparr> mMessageTracker := t \<rparr>) = band_bid_cancels a s"
  "band_bid_cancels a (s\<lparr> clock := c \<rparr>) = band_bid_cancels a s"
  "band_bid_cancels a (s\<lparr> sent := out \<rparr>) = band_bid_cancels a s"
  "band_ask_cancels a (s\<lparr> mMessageTracker := t \<rparr>) = band_ask_cancels a s"
  "band_ask_cancels a (s\<lparr> clock := c \<rparr>) = band_ask_cancels a s"
  "band_ask_cancels a (s\<lparr> sent := out \<rparr>) = band_ask_cancels a s"
  "total_bid_volume (s\<lparr> mMessageTracker := t \<rparr>) = total_bid_volume s"
  "total_bid_volume (s\<lparr> clock := c \<rparr>) = total_bid_volume s"
  "total_bid_volume (s\<lparr> sent := out \<rparr>) = total_bid_volume s"
  "total_ask_volume (s\<lparr> mMessageTracker := t \<rparr>) = total_ask_volume s"
  "total_ask_volume (s\<lparr> clock := c \<rparr>) = total_ask_volume s"
  "total_ask_volume (s\<lparr> sent := out \<rparr>) = total_ask_volume s"
  by (simp_all add: arb_bid_cancels_def arb_ask_cancels_def band_bid_cancels_def
      band_ask_cancels_def total_bid_volume_def total_ask_volume_def)

subsection \<open>What placing an order does to the orders already there\<close>

lemma sum_list_map_insort:
  fixes g :: "ulong \<Rightarrow> ulong"
  shows "sum_list (map g (insort x xs)) = g x + sum_list (map g xs)"
  by (induction xs) (simp_all add: add.left_commute)

lemma order_at_heap_add:
  assumes "order_at m h y \<noteq> None" and "h p = None"
  shows "order_at m (h(p \<mapsto> ord)) y = order_at m h y"
  using assms by (auto simp: order_at_def deref_def split: option.splits)

lemma place_bid_order_at_old:
  assumes inv: "engine_inv s" and x: "x \<notin> set (mBidPrices s)" and y: "y \<in> set (mBidPrices s)"
  shows "order_at (mBidToOrder (place_bid x m s)) (heap (place_bid x m s)) y
           = order_at (mBidToOrder s) (heap s) y"
proof -
  have ne: "y \<noteq> x" using x y by auto
  have "order_at (mBidToOrder s) (heap s) y \<noteq> None" using inv_bid_pre[OF inv] y by blast
  from order_at_heap_add[OF this engine_inv_fresh(1)[OF inv]]
  show ?thesis using ne by (simp add: order_at_def)
qed

lemma place_bid_order_at_ask:
  assumes inv: "engine_inv s" and y: "y \<in> set (mAskPrices s)"
  shows "order_at (mAskToOrder (place_bid x m s)) (heap (place_bid x m s)) y
           = order_at (mAskToOrder s) (heap s) y"
proof -
  have "order_at (mAskToOrder s) (heap s) y \<noteq> None" using inv_ask_pre[OF inv] y by blast
  from order_at_heap_add[OF this engine_inv_fresh(1)[OF inv]]
  show ?thesis by simp
qed

lemma place_bid_order_at_new:
  assumes inv: "engine_inv s"
  shows "order_at (mBidToOrder (place_bid x m s)) (heap (place_bid x m s)) x
           = Some \<lparr> price = x, volume = new_order_volume m, orderId = to_uint (mNextMessageId s) \<rparr>"
  using engine_inv_fresh(2)[OF inv] by (simp add: order_at_def deref_def)

lemma place_ask_order_at_old:
  assumes inv: "engine_inv s" and x: "x \<notin> set (mAskPrices s)" and y: "y \<in> set (mAskPrices s)"
  shows "order_at (mAskToOrder (place_ask x m s)) (heap (place_ask x m s)) y
           = order_at (mAskToOrder s) (heap s) y"
proof -
  have ne: "y \<noteq> x" using x y by auto
  have "order_at (mAskToOrder s) (heap s) y \<noteq> None" using inv_ask_pre[OF inv] y by blast
  from order_at_heap_add[OF this engine_inv_fresh(1)[OF inv]]
  show ?thesis using ne by (simp add: order_at_def)
qed

lemma place_ask_order_at_bid:
  assumes inv: "engine_inv s" and y: "y \<in> set (mBidPrices s)"
  shows "order_at (mBidToOrder (place_ask x m s)) (heap (place_ask x m s)) y
           = order_at (mBidToOrder s) (heap s) y"
proof -
  have "order_at (mBidToOrder s) (heap s) y \<noteq> None" using inv_bid_pre[OF inv] y by blast
  from order_at_heap_add[OF this engine_inv_fresh(1)[OF inv]]
  show ?thesis by simp
qed

lemma place_ask_order_at_new:
  assumes inv: "engine_inv s"
  shows "order_at (mAskToOrder (place_ask x m s)) (heap (place_ask x m s)) x
           = Some \<lparr> price = x, volume = new_order_volume m, orderId = to_uint (mNextMessageId s) \<rparr>"
  using engine_inv_fresh(2)[OF inv] by (simp add: order_at_def deref_def)

lemma total_bid_volume_place_bid:
  assumes inv: "engine_inv s" and x: "x \<notin> set (mBidPrices s)"
  shows "total_bid_volume (place_bid x m s) = total_bid_volume s + new_order_volume m"
proof -
  let ?s' = "place_bid x m s"
  have old: "map (volume_at (mBidToOrder ?s') (heap ?s')) (mBidPrices s)
               = map (volume_at (mBidToOrder s) (heap s)) (mBidPrices s)"
    using place_bid_order_at_old[OF inv x] by (intro map_cong) (simp_all add: volume_at_def)
  have new: "volume_at (mBidToOrder ?s') (heap ?s') x = new_order_volume m"
    using place_bid_order_at_new[OF inv] by (simp add: volume_at_def)
  have "total_bid_volume ?s' = sum_list (map (volume_at (mBidToOrder ?s') (heap ?s')) (insort x (mBidPrices s)))"
    using x by (simp add: total_bid_volume_def set_emplace_def)
  also have "\<dots> = new_order_volume m + total_bid_volume s"
    unfolding sum_list_map_insort old new by (simp add: total_bid_volume_def)
  finally show ?thesis by (simp add: add.commute)
qed

lemma total_ask_volume_place_ask:
  assumes inv: "engine_inv s" and x: "x \<notin> set (mAskPrices s)"
  shows "total_ask_volume (place_ask x m s) = total_ask_volume s + new_order_volume m"
proof -
  let ?s' = "place_ask x m s"
  have old: "map (volume_at (mAskToOrder ?s') (heap ?s')) (mAskPrices s)
               = map (volume_at (mAskToOrder s) (heap s)) (mAskPrices s)"
    using place_ask_order_at_old[OF inv x] by (intro map_cong) (simp_all add: volume_at_def)
  have new: "volume_at (mAskToOrder ?s') (heap ?s') x = new_order_volume m"
    using place_ask_order_at_new[OF inv] by (simp add: volume_at_def)
  have "total_ask_volume ?s' = sum_list (map (volume_at (mAskToOrder ?s') (heap ?s')) (insort x (mAskPrices s)))"
    using x by (simp add: total_ask_volume_def set_emplace_def)
  also have "\<dots> = new_order_volume m + total_ask_volume s"
    unfolding sum_list_map_insort old new by (simp add: total_ask_volume_def)
  finally show ?thesis by (simp add: add.commute)
qed

lemma total_ask_volume_place_bid:
  assumes inv: "engine_inv s"
  shows "total_ask_volume (place_bid x m s) = total_ask_volume s"
proof -
  let ?s' = "place_bid x m s"
  have "map (volume_at (mAskToOrder ?s') (heap ?s')) (mAskPrices ?s')
               = map (volume_at (mAskToOrder s) (heap s)) (mAskPrices s)"
    using place_bid_order_at_ask[OF inv] by (intro map_cong) (simp_all add: volume_at_def)
  then show ?thesis by (simp only: total_ask_volume_def)
qed

lemma total_bid_volume_place_ask:
  assumes inv: "engine_inv s"
  shows "total_bid_volume (place_ask x m s) = total_bid_volume s"
proof -
  let ?s' = "place_ask x m s"
  have "map (volume_at (mBidToOrder ?s') (heap ?s')) (mBidPrices ?s')
               = map (volume_at (mBidToOrder s) (heap s)) (mBidPrices s)"
    using place_ask_order_at_bid[OF inv] by (intro map_cong) (simp_all add: volume_at_def)
  then show ?thesis by (simp only: total_bid_volume_def)
qed

subsection \<open>What the insert loops add\<close>

lemma insert_bids_grows:
  assumes "insert_bids f offset m n s = (s', m', n')"
  shows "(\<exists>cs. sent s' = sent s @ cs \<and> (\<forall>c\<in>set cs. is_insert c)) \<and>
         set (mBidPrices s) \<subseteq> set (mBidPrices s') \<and>
         set (mBidPrices s') \<subseteq> set (mBidPrices s) \<union> bid_level f ` {offset..<NUM_CLONES} \<and>
         mAskPrices s' = mAskPrices s"
  using assms
proof (induction "NUM_CLONES - offset" arbitrary: offset m n s)
  case 0
  then have "insert_bids f offset m n s = (s, m, n)" by (intro insert_bids_stop) simp
  with 0 show ?case by simp
next
  case (Suc k)
  have k: "k = NUM_CLONES - (offset + 1)" using Suc.hyps(2) by simp
  have sub: "bid_level f ` {offset + 1..<NUM_CLONES} \<subseteq> bid_level f ` {offset..<NUM_CLONES}"
    by (intro image_mono) auto
  show ?case
  proof (cases rule: insert_bids_cases[of offset m n f s])
    case stop
    with Suc.prems show ?thesis by simp
  next
    case skip
    have e: "insert_bids f (offset + 1) m n s = (s', m', n')" using skip(5) Suc.prems by simp
    from Suc.hyps(1)[OF k e] sub show ?thesis by blast
  next
    case new
    let ?s1 = "place_bid (bid_level f offset) m s"
    have e: "insert_bids f (offset + 1) (m - new_order_volume m) (n - 1) ?s1 = (s', m', n')"
      using new(5) Suc.prems by simp
    from Suc.hyps(1)[OF k e] obtain cs where
      1: "sent s' = sent ?s1 @ cs" "\<forall>c\<in>set cs. is_insert c"
      and 2: "set (mBidPrices ?s1) \<subseteq> set (mBidPrices s')"
      and 3: "set (mBidPrices s') \<subseteq> set (mBidPrices ?s1) \<union> bid_level f ` {offset + 1..<NUM_CLONES}"
      and 4: "mAskPrices s' = mAskPrices ?s1"
      by blast
    have lv: "bid_level f offset \<in> bid_level f ` {offset..<NUM_CLONES}" using new(1) by simp
    have "sent s' = sent s @ (InsertOrder (to_uint (mNextMessageId s)) BUY (bid_level f offset)
                                 (new_order_volume m) GOOD_FOR_DAY # cs)"
      using 1 by simp
    moreover have "\<forall>c\<in>set (InsertOrder (to_uint (mNextMessageId s)) BUY (bid_level f offset)
                                 (new_order_volume m) GOOD_FOR_DAY # cs). is_insert c"
      using 1 by simp
    moreover have "set (mBidPrices s) \<subseteq> set (mBidPrices s')"
      using 2 by (auto simp: set_emplace_props)
    moreover have "set (mBidPrices s') \<subseteq> set (mBidPrices s) \<union> bid_level f ` {offset..<NUM_CLONES}"
      using 3 sub lv by (auto simp: set_emplace_props)
    moreover have "mAskPrices s' = mAskPrices s" using 4 by simp
    ultimately show ?thesis by blast
  qed
qed

lemma insert_asks_grows:
  assumes "insert_asks f offset m n s = (s', m', n')"
  shows "(\<exists>cs. sent s' = sent s @ cs \<and> (\<forall>c\<in>set cs. is_insert c)) \<and>
         set (mAskPrices s) \<subseteq> set (mAskPrices s') \<and>
         set (mAskPrices s') \<subseteq> set (mAskPrices s) \<union> ask_level f ` {offset..<NUM_CLONES} \<and>
         mBidPrices s' = mBidPrices s"
  using assms
proof (induction "NUM_CLONES - offset" arbitrary: offset m n s)
  case 0
  then have "insert_asks f offset m n s = (s, m, n)" by (intro insert_asks_stop) simp
  with 0 show ?case by simp
next
  case (Suc k)
  have k: "k = NUM_CLONES - (offset + 1)" using Suc.hyps(2) by simp
  have sub: "ask_level f ` {offset + 1..<NUM_CLONES} \<subseteq> ask_level f ` {offset..<NUM_CLONES}"
    by (intro image_mono) auto
  show ?case
  proof (cases rule: insert_asks_cases[of offset m n f s])
    case stop
    with Suc.prems show ?thesis by simp
  next
    case skip
    have e: "insert_asks f (offset + 1) m n s = (s', m', n')" using skip(5) Suc.prems by simp
    from Suc.hyps(1)[OF k e] sub show ?thesis by blast
  next
    case new
    let ?s1 = "place_ask (ask_level f offset) m s"
    have e: "insert_asks f (offset + 1) (m - new_order_volume m) (n - 1) ?s1 = (s', m', n')"
      using new(5) Suc.prems by simp
    from Suc.hyps(1)[OF k e] obtain cs where
      1: "sent s' = sent ?s1 @ cs" "\<forall>c\<in>set cs. is_insert c"
      and 2: "set (mAskPrices ?s1) \<subseteq> set (mAskPrices s')"
      and 3: "set (mAskPrices s') \<subseteq> set (mAskPrices ?s1) \<union> ask_level f ` {offset + 1..<NUM_CLONES}"
      and 4: "mBidPrices s' = mBidPrices ?s1"
      by blast
    have lv: "ask_level f offset \<in> ask_level f ` {offset..<NUM_CLONES}" using new(1) by simp
    have "sent s' = sent s @ (InsertOrder (to_uint (mNextMessageId s)) SELL (ask_level f offset)
                                 (new_order_volume m) GOOD_FOR_DAY # cs)"
      using 1 by simp
    moreover have "\<forall>c\<in>set (InsertOrder (to_uint (mNextMessageId s)) SELL (ask_level f offset)
                                 (new_order_volume m) GOOD_FOR_DAY # cs). is_insert c"
      using 1 by simp
    moreover have "set (mAskPrices s) \<subseteq> set (mAskPrices s')"
      using 2 by (auto simp: set_emplace_props)
    moreover have "set (mAskPrices s') \<subseteq> set (mAskPrices s) \<union> ask_level f ` {offset..<NUM_CLONES}"
      using 3 sub lv by (auto simp: set_emplace_props)
    moreover have "mBidPrices s' = mBidPrices s" using 4 by simp
    ultimately show ?thesis by blast
  qed
qed

lemma adjust_bid_side_run:
  assumes inv: "engine_inv s" and b: "b \<noteq> 0"
  shows "\<exists>t c s' m' n'.
           insert_bids (frontBid_of b a adj) 0
             ((word_of_int POSITION_LIMIT :: long) - mPosition s - total_bid_volume s) n
             (s\<lparr> mMessageTracker := t, clock := c,
                 sent := sent s @ band_bid_cancels (frontBid_of b a adj) s \<rparr>) = (s', m', n') \<and>
           adjust_bid_side b a adj n s = Some (s', n')"
proof -
  let ?f = "frontBid_of b a adj"
  let ?m = "(word_of_int POSITION_LIMIT :: long) - mPosition s"
  from scan_bids_run[OF inv, of ?f ?m] obtain t c where
    sc: "scan_bids ?f (mBidPrices s) (s, ?m) =
           Some (s\<lparr> mMessageTracker := t, clock := c, sent := sent s @ band_bid_cancels ?f s \<rparr>,
                 ?m - total_bid_volume s)"
    by blast
  let ?s1 = "s\<lparr> mMessageTracker := t, clock := c, sent := sent s @ band_bid_cancels ?f s \<rparr>"
  obtain s2 m2 n2 where ins: "insert_bids ?f 0 (?m - total_bid_volume s) n ?s1 = (s2, m2, n2)"
    by (cases "insert_bids ?f 0 (?m - total_bid_volume s) n ?s1") auto
  have "adjust_bid_side b a adj n s = Some (s2, n2)"
    using b sc ins by (simp add: adjust_bid_side_def Let_def)
  with ins show ?thesis by blast
qed

lemma adjust_ask_side_run:
  assumes inv: "engine_inv s" and a: "a \<noteq> 0"
  shows "\<exists>t c s' m' n'.
           insert_asks (frontAsk_of b a adj) 0
             ((word_of_int POSITION_LIMIT :: long) + mPosition s - total_ask_volume s) n
             (s\<lparr> mMessageTracker := t, clock := c,
                 sent := sent s @ band_ask_cancels (frontAsk_of b a adj) s \<rparr>) = (s', m', n') \<and>
           adjust_ask_side b a adj n s = Some (s', n')"
proof -
  let ?f = "frontAsk_of b a adj"
  let ?m = "(word_of_int POSITION_LIMIT :: long) + mPosition s"
  from scan_asks_run[OF inv, of ?f ?m] obtain t c where
    sc: "scan_asks ?f (mAskPrices s) (s, ?m) =
           Some (s\<lparr> mMessageTracker := t, clock := c, sent := sent s @ band_ask_cancels ?f s \<rparr>,
                 ?m - total_ask_volume s)"
    by blast
  let ?s1 = "s\<lparr> mMessageTracker := t, clock := c, sent := sent s @ band_ask_cancels ?f s \<rparr>"
  obtain s2 m2 n2 where ins: "insert_asks ?f 0 (?m - total_ask_volume s) n ?s1 = (s2, m2, n2)"
    by (cases "insert_asks ?f 0 (?m - total_ask_volume s) n ?s1") auto
  have "adjust_ask_side b a adj n s = Some (s2, n2)"
    using a sc ins by (simp add: adjust_ask_side_def Let_def)
  with ins show ?thesis by blast
qed

text \<open>The prices an update can add lie on the ladder.\<close>

lemma scan_bids_grows:
  "scan_bids f xs (s, m) = Some (s', m') \<Longrightarrow>
   (\<exists>cs. sent s' = sent s @ cs) \<and> mBidPrices s' = mBidPrices s \<and> mAskPrices s' = mAskPrices s"
proof (induction xs arbitrary: s m)
  case Nil
  then show ?case by simp
next
  case (Cons x xs)
  obtain mp p where mi: "map_index (mBidToOrder s) (to_uint x) = (mp, p)"
    by (cases "map_index (mBidToOrder s) (to_uint x)")
  show ?case
  proof (cases "p = 0")
    case True
    with Cons.prems mi have "scan_bids f xs (s\<lparr> mBidToOrder := mp \<rparr>, m) = Some (s', m')"
      by (simp add: Let_def)
    from Cons.IH[OF this] show ?thesis by simp
  next
    case False
    with Cons.prems mi obtain ord where o: "heap s p = Some ord"
      by (auto simp: Let_def split: option.splits)
    show ?thesis
    proof (cases "to_uint x > f \<or> to_uint x \<le> f - of_nat (NUM_CLONES * TICK_SIZE_IN_CENTS)")
      case True
      with Cons.prems mi False o
      have "scan_bids f xs (SendCancelOrder (orderId ord) (s\<lparr> mBidToOrder := mp \<rparr>), m - volume ord)
              = Some (s', m')"
        by (simp add: Let_def)
      from Cons.IH[OF this] show ?thesis by (auto simp: SendCancelOrder_def)
    next
      case c: False
      with Cons.prems mi False o
      have "scan_bids f xs (s\<lparr> mBidToOrder := mp \<rparr>, m - volume ord) = Some (s', m')"
        by (simp add: Let_def)
      from Cons.IH[OF this] show ?thesis by simp
    qed
  qed
qed

lemma scan_asks_grows:
  "scan_asks f xs (s, m) = Some (s', m') \<Longrightarrow>
   (\<exists>cs. sent s' = sent s @ cs) \<and> mBidPrices s' = mBidPrices s \<and> mAskPrices s' = mAskPrices s"
proof (induction xs arbitrary: s m)
  case Nil
  then show ?case by simp
next
  case (Cons x xs)
  obtain mp p where mi: "map_index (mAskToOrder s) (to_uint x) = (mp, p)"
    by (cases "map_index (mAskToOrder s) (to_uint x)")
  show ?case
  proof (cases "p = 0")
    case True
    with Cons.prems mi have "scan_asks f xs (s\<lparr> mAskToOrder := mp \<rparr>, m) = Some (s', m')"
      by (simp add: Let_def)
    from Cons.IH[OF this] show ?thesis by simp
  next
    case False
    with Cons.prems mi obtain ord where o: "heap s p = Some ord"
      by (auto simp: Let_def split: option.splits)
    show ?thesis
    proof (cases "to_uint x < f \<or> to_uint x \<ge> f + of_nat (NUM_CLONES * TICK_SIZE_IN_CENTS)")
      case True
      with Cons.prems mi False o
      have "scan_asks f xs (SendCancelOrder (orderId ord) (s\<lparr> mAskToOrder := mp \<rparr>), m - volume ord)
              = Some (s', m')"
        by (simp add: Let_def)
      from Cons.IH[OF this] show ?thesis by (auto simp: SendCancelOrder_def)
    next
      case c: False
      with Cons.prems mi False o
      have "scan_asks f xs (s\<lparr> mAskToOrder := mp \<rparr>, m - volume ord) = Some (s', m')"
        by (simp add: Let_def)
      from Cons.IH[OF this] show ?thesis by simp
    qed
  qed
qed

lemma adjust_bid_side_grows:
  assumes r: "adjust_bid_side b a adj n s = Some (s', n')"
  shows "(\<exists>cs. sent s' = sent s @ cs) \<and> set (mBidPrices s) \<subseteq> set (mBidPrices s') \<and>
         set (mBidPrices s') \<subseteq> set (mBidPrices s) \<union> bid_level (frontBid_of b a adj) ` {0..<NUM_CLONES} \<and>
         mAskPrices s' = mAskPrices s"
proof (cases "b = 0")
  case True
  then show ?thesis using r by (simp add: adjust_bid_side_def)
next
  case False
  with r obtain s1 m1 m' where
    sc: "scan_bids (frontBid_of b a adj) (mBidPrices s)
           (s, (word_of_int POSITION_LIMIT :: long) - mPosition s) = Some (s1, m1)"
    and ins: "insert_bids (frontBid_of b a adj) 0 m1 n s1 = (s', m', n')"
    by (auto simp: adjust_bid_side_def Let_def split: option.splits prod.splits)
  from scan_bids_grows[OF sc] insert_bids_grows[OF ins] show ?thesis by auto
qed

lemma adjust_ask_side_grows:
  assumes r: "adjust_ask_side b a adj n s = Some (s', n')"
  shows "(\<exists>cs. sent s' = sent s @ cs) \<and> set (mAskPrices s) \<subseteq> set (mAskPrices s') \<and>
         set (mAskPrices s') \<subseteq> set (mAskPrices s) \<union> ask_level (frontAsk_of b a adj) ` {0..<NUM_CLONES} \<and>
         mBidPrices s' = mBidPrices s"
proof (cases "a = 0")
  case True
  then show ?thesis using r by (simp add: adjust_ask_side_def)
next
  case False
  with r obtain s1 m1 m' where
    sc: "scan_asks (frontAsk_of b a adj) (mAskPrices s)
           (s, (word_of_int POSITION_LIMIT :: long) + mPosition s) = Some (s1, m1)"
    and ins: "insert_asks (frontAsk_of b a adj) 0 m1 n s1 = (s', m', n')"
    by (auto simp: adjust_ask_side_def Let_def split: option.splits prod.splits)
  from scan_asks_grows[OF sc] insert_asks_grows[OF ins] show ?thesis by auto
qed

text \<open>An update first sends the arbitrage cancels; what follows only adds ladder prices.\<close>

lemma OrderBookMessageHandler_sent:
  assumes inv: "engine_inv s"
    and h: "OrderBookMessageHandler FUTURE sq ap av bp bv s = Some s'"
  shows "\<exists>adj rest. priceAdjustment_of (mPosition s) = Some adj \<and>
           sent s' = sent s @ arb_bid_cancels (ap 0) s @ arb_ask_cancels (bp 0) s @ rest \<and>
           set (mBidPrices s) \<subseteq> set (mBidPrices s') \<and>
           set (mBidPrices s') \<subseteq> set (mBidPrices s) \<union> bid_level (frontBid_of (bp 0) (ap 0) adj) ` {0..<NUM_CLONES} \<and>
           set (mAskPrices s) \<subseteq> set (mAskPrices s') \<and>
           set (mAskPrices s') \<subseteq> set (mAskPrices s) \<union> ask_level (frontAsk_of (bp 0) (ap 0) adj) ` {0..<NUM_CLONES}"
proof -
  from arbitrage_bids_run[OF inv, of "ap 0"] obtain t1 c1 where
    1: "cancel_arbitragable_bids (ap 0) (mBidPrices s) s =
          Some (s\<lparr> mMessageTracker := t1, clock := c1, sent := sent s @ arb_bid_cancels (ap 0) s \<rparr>)"
    by blast
  let ?s1 = "s\<lparr> mMessageTracker := t1, clock := c1, sent := sent s @ arb_bid_cancels (ap 0) s \<rparr>"
  have i1: "engine_inv ?s1" using inv by simp
  from arbitrage_asks_run[OF i1, of "bp 0"] obtain t2 c2 where
    2: "cancel_arbitragable_asks (bp 0) (mAskPrices ?s1) ?s1 =
          Some (s\<lparr> mMessageTracker := t2, clock := c2,
                   sent := sent s @ arb_bid_cancels (ap 0) s @ arb_ask_cancels (bp 0) s \<rparr>)"
    by auto
  let ?s2 = "s\<lparr> mMessageTracker := t2, clock := c2,
                sent := sent s @ arb_bid_cancels (ap 0) s @ arb_ask_cancels (bp 0) s \<rparr>"
  from h 1 2 obtain adj where adj: "priceAdjustment_of (mPosition s) = Some adj"
    by (auto simp: OrderBookMessageHandler_def Let_def split: option.splits)
  obtain t3 k where 3: "GetNonCancelMessagesAllowed (clock ?s2) (mMessageTracker ?s2) = (t3, k)"
    by (cases "GetNonCancelMessagesAllowed (clock ?s2) (mMessageTracker ?s2)")
  let ?s3 = "?s2\<lparr> mMessageTracker := t3 \<rparr>"
  from h 1 2 3 adj obtain s4 k4 k5 where
    4: "adjust_bid_side (bp 0) (ap 0) adj k ?s3 = Some (s4, k4)"
    and 5: "adjust_ask_side (bp 0) (ap 0) adj k4 s4 = Some (s', k5)"
    by (auto simp: OrderBookMessageHandler_def Let_def split: option.splits prod.splits)
  from adjust_bid_side_grows[OF 4] obtain cs4 where
    g4: "sent s4 = sent ?s3 @ cs4" "set (mBidPrices ?s3) \<subseteq> set (mBidPrices s4)"
      "set (mBidPrices s4) \<subseteq> set (mBidPrices ?s3) \<union> bid_level (frontBid_of (bp 0) (ap 0) adj) ` {0..<NUM_CLONES}"
      "mAskPrices s4 = mAskPrices ?s3"
    by blast
  from adjust_ask_side_grows[OF 5] obtain cs5 where
    g5: "sent s' = sent s4 @ cs5" "set (mAskPrices s4) \<subseteq> set (mAskPrices s')"
      "set (mAskPrices s') \<subseteq> set (mAskPrices s4) \<union> ask_level (frontAsk_of (bp 0) (ap 0) adj) ` {0..<NUM_CLONES}"
      "mBidPrices s' = mBidPrices s4"
    by blast
  have "sent s' = sent s @ arb_bid_cancels (ap 0) s @ arb_ask_cancels (bp 0) s @ (cs4 @ cs5)"
    using g4(1) g5(1) by simp
  then show ?thesis using adj g4 g5 by (intro exI[of _ adj] exI[of _ "cs4 @ cs5"]) simp
qed

lemma one_bid_fields:
  "mNextMessageId one_bid = 2" "mPosition one_bid = 0"
  "mBidPrices one_bid = [9900]" "mAskPrices one_bid = []"
  "mBidToOrder one_bid = [9900 \<mapsto> 1]" "mBidOrderIdToOrder one_bid = [1 \<mapsto> 1]"
  "mAskToOrder one_bid = Map.empty" "mAskOrderIdToOrder one_bid = Map.empty"
  "heap one_bid = [1 \<mapsto> \<lparr> price = 9900, volume = 10, orderId = 1 \<rparr>]"
  "next_addr one_bid = 2" "sent one_bid = []"
  by (simp_all add: one_bid_def new_AutoTrader_def)

lemma one_bid_inv: "engine_inv one_bid"
  unfolding engine_inv_def registry_consistent_def side_consistent_def
  by (auto simp: one_bid_fields split: if_splits)

lemma one_ask_fields:
  "mNextMessageId one_ask = 2" "mPosition one_ask = 0"
  "mAskPrices one_ask = [10200]" "mBidPrices one_ask = []"
  "mAskToOrder one_ask = [10200 \<mapsto> 1]" "mAskOrderIdToOrder one_ask = [1 \<mapsto> 1]"
  "mBidToOrder one_ask = Map.empty" "mBidOrderIdToOrder one_ask = Map.empty"
  "heap one_ask = [1 \<mapsto> \<lparr> price = 10200, volume = 10, orderId = 1 \<rparr>]"
  "next_addr one_ask = 2" "sent one_ask = []"
  by (simp_all add: one_ask_def new_AutoTrader_def)

lemma one_ask_inv: "engine_inv one_ask"
  unfolding engine_inv_def registry_consistent_def side_consistent_def
  by (auto simp: one_ask_fields split: if_splits)

text \<open>
  C7. An error callback that names a nonzero id found in the bid registry removes that
  order from the bid id map, the bid price map and the bid price set, and the views stay
  consistent; likewise for an id found in the ask registry. An error callback with id zero,
  or with an id in neither registry, returns the state unchanged.
\<close>

theorem C7_error_callback_removes_the_order:
  assumes "engine_inv s"
  shows "(cid \<noteq> 0 \<longrightarrow>
            (\<forall>p. mBidOrderIdToOrder s cid = Some p \<longrightarrow>
               (\<exists>ord s'. heap s p = Some ord \<and> ErrorMessageHandler cid msg s = Some s' \<and>
                   mBidOrderIdToOrder s' = (mBidOrderIdToOrder s)(cid := None) \<and>
                   mBidToOrder s' = (mBidToOrder s)(price ord := None) \<and>
                   set (mBidPrices s') = set (mBidPrices s) - {price ord} \<and>
                   mAskOrderIdToOrder s' = mAskOrderIdToOrder s \<and> mAskToOrder s' = mAskToOrder s \<and>
                   mAskPrices s' = mAskPrices s \<and> registry_consistent s')) \<and>
            (\<forall>p. mAskOrderIdToOrder s cid = Some p \<longrightarrow>
               (\<exists>ord s'. heap s p = Some ord \<and> ErrorMessageHandler cid msg s = Some s' \<and>
                   mAskOrderIdToOrder s' = (mAskOrderIdToOrder s)(cid := None) \<and>
                   mAskToOrder s' = (mAskToOrder s)(price ord := None) \<and>
                   set (mAskPrices s') = set (mAskPrices s) - {price ord} \<and>
                   mBidOrderIdToOrder s' = mBidOrderIdToOrder s \<and> mBidToOrder s' = mBidToOrder s \<and>
                   mBidPrices s' = mBidPrices s \<and> registry_consistent s'))) \<and>
         (cid = 0 \<or> (mBidOrderIdToOrder s cid = None \<and> mAskOrderIdToOrder s cid = None) \<longrightarrow>
            ErrorMessageHandler cid msg s = Some s)"
proof (intro conjI impI allI)
  fix p assume c: "cid \<noteq> 0" and b: "mBidOrderIdToOrder s cid = Some p"
  from status_zero_bid[OF assms b, of 0 0] obtain ord where
    o: "heap s p = Some ord"
    and e: "OrderStatusMessageHandler cid 0 0 0 s =
             Some (s\<lparr> mBidOrderIdToOrder := (mBidOrderIdToOrder s)(cid := None),
                      mBidToOrder := (mBidToOrder s)(price ord := None),
                      mBidPrices := set_erase (price ord) (mBidPrices s),
                      heap := (heap s)(p := None) \<rparr>)"
    and i: "engine_inv (s\<lparr> mBidOrderIdToOrder := (mBidOrderIdToOrder s)(cid := None),
                      mBidToOrder := (mBidToOrder s)(price ord := None),
                      mBidPrices := set_erase (price ord) (mBidPrices s),
                      heap := (heap s)(p := None) \<rparr>)"
    by blast
  have "ErrorMessageHandler cid msg s = OrderStatusMessageHandler cid 0 0 0 s"
    using c b by (simp add: ErrorMessageHandler_def)
  with o e i show "\<exists>ord s'. heap s p = Some ord \<and> ErrorMessageHandler cid msg s = Some s' \<and>
                   mBidOrderIdToOrder s' = (mBidOrderIdToOrder s)(cid := None) \<and>
                   mBidToOrder s' = (mBidToOrder s)(price ord := None) \<and>
                   set (mBidPrices s') = set (mBidPrices s) - {price ord} \<and>
                   mAskOrderIdToOrder s' = mAskOrderIdToOrder s \<and> mAskToOrder s' = mAskToOrder s \<and>
                   mAskPrices s' = mAskPrices s \<and> registry_consistent s'"
    by (intro exI[of _ ord]) (simp add: set_erase_props engine_inv_def)
next
  fix p assume c: "cid \<noteq> 0" and a: "mAskOrderIdToOrder s cid = Some p"
  from assms a have nb: "mBidOrderIdToOrder s cid = None"
    unfolding engine_inv_def by (metis disjoint_iff domI domIff)
  from status_zero_ask[OF assms nb a, of 0 0] obtain ord where
    o: "heap s p = Some ord"
    and e: "OrderStatusMessageHandler cid 0 0 0 s =
             Some (s\<lparr> mAskOrderIdToOrder := (mAskOrderIdToOrder s)(cid := None),
                      mAskToOrder := (mAskToOrder s)(price ord := None),
                      mAskPrices := set_erase (price ord) (mAskPrices s),
                      heap := (heap s)(p := None) \<rparr>)"
    and i: "engine_inv (s\<lparr> mAskOrderIdToOrder := (mAskOrderIdToOrder s)(cid := None),
                      mAskToOrder := (mAskToOrder s)(price ord := None),
                      mAskPrices := set_erase (price ord) (mAskPrices s),
                      heap := (heap s)(p := None) \<rparr>)"
    by blast
  have "ErrorMessageHandler cid msg s = OrderStatusMessageHandler cid 0 0 0 s"
    using c a by (simp add: ErrorMessageHandler_def)
  with o e i show "\<exists>ord s'. heap s p = Some ord \<and> ErrorMessageHandler cid msg s = Some s' \<and>
                   mAskOrderIdToOrder s' = (mAskOrderIdToOrder s)(cid := None) \<and>
                   mAskToOrder s' = (mAskToOrder s)(price ord := None) \<and>
                   set (mAskPrices s') = set (mAskPrices s) - {price ord} \<and>
                   mBidOrderIdToOrder s' = mBidOrderIdToOrder s \<and> mBidToOrder s' = mBidToOrder s \<and>
                   mBidPrices s' = mBidPrices s \<and> registry_consistent s'"
    by (intro exI[of _ ord]) (simp add: set_erase_props engine_inv_def)
next
  assume "cid = 0 \<or> (mBidOrderIdToOrder s cid = None \<and> mAskOrderIdToOrder s cid = None)"
  then show "ErrorMessageHandler cid msg s = Some s"
    by (auto simp: ErrorMessageHandler_def)
qed

theorem C7_error_callback_removes_the_order_witness:
  "engine_inv one_bid \<and>
   (\<exists>s'. ErrorMessageHandler 1 ''rejected'' one_bid = Some s' \<and>
         mBidOrderIdToOrder s' = Map.empty \<and> mBidToOrder s' = Map.empty \<and> mBidPrices s' = []) \<and>
   ErrorMessageHandler 0 ''not order-specific'' one_bid = Some one_bid \<and>
   ErrorMessageHandler 7 ''unknown'' one_bid = Some one_bid"
proof -
  have a: "\<exists>s'. ErrorMessageHandler 1 ''rejected'' one_bid = Some s' \<and>
         mBidOrderIdToOrder s' = Map.empty \<and> mBidToOrder s' = Map.empty \<and> mBidPrices s' = []"
    using C7_error_callback_removes_the_order[OF one_bid_inv, of 1 "''rejected''"]
    by (auto simp: one_bid_fields)
  have b: "ErrorMessageHandler 0 ''not order-specific'' one_bid = Some one_bid"
    using C7_error_callback_removes_the_order[OF one_bid_inv, of 0 "''not order-specific''"]
    by simp
  have c: "ErrorMessageHandler 7 ''unknown'' one_bid = Some one_bid"
    using C7_error_callback_removes_the_order[OF one_bid_inv, of 7 "''unknown''"]
    by (simp add: one_bid_fields)
  show ?thesis using a b c one_bid_inv by simp
qed

subsection \<open>Where the ladder lies\<close>

lemma unat_tick_offset:
  assumes "k \<le> NUM_CLONES"
  shows "unat (of_nat (k * TICK_SIZE_IN_CENTS) :: ulong) = k * TICK_SIZE_IN_CENTS"
proof -
  have "k * TICK_SIZE_IN_CENTS < 2 ^ 64"
    using assms by (simp add: NUM_CLONES_def TICK_SIZE_IN_CENTS_def)
  then show ?thesis by (simp only: unat_of_nat) simp
qed

lemma unat_to_uint_le: "unat (to_uint y) \<le> unat y"
  by (simp add: unat_to_uint)

lemma bid_level_le:
  assumes "k * TICK_SIZE_IN_CENTS \<le> unat f" and "k < NUM_CLONES"
  shows "bid_level f k \<le> f"
proof -
  define d :: ulong where "d = of_nat (k * TICK_SIZE_IN_CENTS)"
  have ud: "unat d = k * TICK_SIZE_IN_CENTS"
    unfolding d_def using assms(2) by (intro unat_tick_offset) simp
  have "d \<le> f" using assms(1) ud by (simp only: word_le_nat_alt)
  then have "unat (f - d) \<le> unat f" by (simp add: unat_sub)
  moreover have "unat (to_uint (f - d)) \<le> unat (f - d)" by (rule unat_to_uint_le)
  ultimately have "unat (bid_level f k) \<le> unat f"
    unfolding bid_level_def d_def by (rule order_trans[rotated])
  then show ?thesis by (simp only: word_le_nat_alt)
qed

lemma ask_level_ge:
  assumes "unat f + k * TICK_SIZE_IN_CENTS < 2 ^ 32" and "k < NUM_CLONES"
  shows "f \<le> ask_level f k"
proof -
  define d :: ulong where "d = of_nat (k * TICK_SIZE_IN_CENTS)"
  have ud: "unat d = k * TICK_SIZE_IN_CENTS"
    unfolding d_def using assms(2) by (intro unat_tick_offset) simp
  have "unat (f + d) = unat f + unat d"
    using assms(1) ud by (simp add: unat_word_ariths)
  then have "unat (to_uint (f + d)) = unat f + unat d"
    using assms(1) ud by (simp add: unat_to_uint)
  then have "unat f \<le> unat (ask_level f k)"
    unfolding ask_level_def d_def by simp
  then show ?thesis by (simp only: word_le_nat_alt)
qed

lemma frontBid_le_ask: "frontBid_of b a adj \<le> a"
  by (simp add: frontBid_of_def)

lemma frontAsk_ge_bid: "b \<le> frontAsk_of b a adj"
  by (simp add: frontAsk_of_def)

text \<open>
  C2. While a reference order book update is processed, a cancel command
  is sent for every order of the bid registry priced above the best ask and for every order
  of the ask registry priced below the best bid; these orders stay in the registry (a status
  update with no remaining volume removes them). Where the ladder prices do not wrap
  around, no price that the update adds to the bid registry lies above the best ask, and none
  added to the ask registry lies below the best bid.
\<close>

theorem C2_crossed_orders_get_a_cancel:
  assumes "engine_inv s"
    and "OrderBookMessageHandler FUTURE sq ap av bp bv s = Some s'"
  shows "(\<forall>x\<in>set (mBidPrices s). ap 0 < x \<longrightarrow>
            x \<in> set (mBidPrices s') \<and>
            CancelOrder (id_at (mBidToOrder s) (heap s) x) \<in> set (drop (length (sent s)) (sent s'))) \<and>
         (\<forall>x\<in>set (mAskPrices s). x < bp 0 \<longrightarrow>
            x \<in> set (mAskPrices s') \<and>
            CancelOrder (id_at (mAskToOrder s) (heap s) x) \<in> set (drop (length (sent s)) (sent s'))) \<and>
         (\<forall>adj. priceAdjustment_of (mPosition s) = Some adj \<longrightarrow>
            ((NUM_CLONES - 1) * TICK_SIZE_IN_CENTS \<le> unat (frontBid_of (bp 0) (ap 0) adj) \<longrightarrow>
               (\<forall>x\<in>set (mBidPrices s'). ap 0 < x \<longrightarrow> x \<in> set (mBidPrices s))) \<and>
            (unat (frontAsk_of (bp 0) (ap 0) adj) + (NUM_CLONES - 1) * TICK_SIZE_IN_CENTS < 2 ^ 32 \<longrightarrow>
               (\<forall>x\<in>set (mAskPrices s'). x < bp 0 \<longrightarrow> x \<in> set (mAskPrices s))))"
proof -
  from OrderBookMessageHandler_sent[OF assms] obtain adj rest where
    adj: "priceAdjustment_of (mPosition s) = Some adj"
    and snt: "sent s' = sent s @ arb_bid_cancels (ap 0) s @ arb_ask_cancels (bp 0) s @ rest"
    and b1: "set (mBidPrices s) \<subseteq> set (mBidPrices s')"
    and b2: "set (mBidPrices s') \<subseteq> set (mBidPrices s) \<union> bid_level (frontBid_of (bp 0) (ap 0) adj) ` {0..<NUM_CLONES}"
    and a1: "set (mAskPrices s) \<subseteq> set (mAskPrices s')"
    and a2: "set (mAskPrices s') \<subseteq> set (mAskPrices s) \<union> ask_level (frontAsk_of (bp 0) (ap 0) adj) ` {0..<NUM_CLONES}"
    by blast
  have new: "drop (length (sent s)) (sent s') = arb_bid_cancels (ap 0) s @ arb_ask_cancels (bp 0) s @ rest"
    using snt by simp
  have 1: "\<forall>x\<in>set (mBidPrices s). ap 0 < x \<longrightarrow>
            x \<in> set (mBidPrices s') \<and>
            CancelOrder (id_at (mBidToOrder s) (heap s) x) \<in> set (drop (length (sent s)) (sent s'))"
    using b1 unfolding new by (auto simp: arb_bid_cancels_def)
  have 2: "\<forall>x\<in>set (mAskPrices s). x < bp 0 \<longrightarrow>
            x \<in> set (mAskPrices s') \<and>
            CancelOrder (id_at (mAskToOrder s) (heap s) x) \<in> set (drop (length (sent s)) (sent s'))"
    using a1 unfolding new by (auto simp: arb_ask_cancels_def)
  have 3: "\<forall>x\<in>set (mBidPrices s'). ap 0 < x \<longrightarrow> x \<in> set (mBidPrices s)"
    if w: "(NUM_CLONES - 1) * TICK_SIZE_IN_CENTS \<le> unat (frontBid_of (bp 0) (ap 0) adj)"
  proof (intro ballI impI)
    fix x assume x: "x \<in> set (mBidPrices s')" and c: "ap 0 < x"
    show "x \<in> set (mBidPrices s)"
    proof (rule ccontr)
      assume "x \<notin> set (mBidPrices s)"
      with b2 x obtain k where k: "k < NUM_CLONES" "x = bid_level (frontBid_of (bp 0) (ap 0) adj) k"
        by auto
      from k(1) have "k * TICK_SIZE_IN_CENTS \<le> (NUM_CLONES - 1) * TICK_SIZE_IN_CENTS"
        by (intro mult_le_mono1) arith
      with w have "k * TICK_SIZE_IN_CENTS \<le> unat (frontBid_of (bp 0) (ap 0) adj)"
        by (rule order_trans[rotated])
      from bid_level_le[OF this k(1)] frontBid_le_ask[of "bp 0" "ap 0" adj] k(2) c
      show False by simp
    qed
  qed
  have 4: "\<forall>x\<in>set (mAskPrices s'). x < bp 0 \<longrightarrow> x \<in> set (mAskPrices s)"
    if w: "unat (frontAsk_of (bp 0) (ap 0) adj) + (NUM_CLONES - 1) * TICK_SIZE_IN_CENTS < 2 ^ 32"
  proof (intro ballI impI)
    fix x assume x: "x \<in> set (mAskPrices s')" and c: "x < bp 0"
    show "x \<in> set (mAskPrices s)"
    proof (rule ccontr)
      assume "x \<notin> set (mAskPrices s)"
      with a2 x obtain k where k: "k < NUM_CLONES" "x = ask_level (frontAsk_of (bp 0) (ap 0) adj) k"
        by auto
      from k(1) have "k * TICK_SIZE_IN_CENTS \<le> (NUM_CLONES - 1) * TICK_SIZE_IN_CENTS"
        by (intro mult_le_mono1) arith
      with w have "unat (frontAsk_of (bp 0) (ap 0) adj) + k * TICK_SIZE_IN_CENTS < 2 ^ 32"
        by linarith
      from ask_level_ge[OF this k(1)] frontAsk_ge_bid[of "bp 0" "ap 0" adj] k(2) c
      show False by simp
    qed
  qed
  show ?thesis using 1 2 3 4 adj by simp
qed

theorem C2_crossed_orders_get_a_cancel_witness:
  "engine_inv one_bid \<and>
   (\<exists>s'. OrderBookMessageHandler FUTURE 2 (top_only 9100) (top_only 5) (top_only 9000) (top_only 5)
            one_bid = Some s' \<and>
         9900 \<in> set (mBidPrices s') \<and> CancelOrder 1 \<in> set (sent s'))"
proof -
  have "unat (mNextMessageId one_bid) + ids_per_event \<le> 2 ^ 32"
    by (simp add: one_bid_fields ids_per_event_def NUM_CLONES_def)
  moreover have "priceAdjustment_of (mPosition one_bid) \<noteq> None \<or> FUTURE \<noteq> FUTURE"
    by (simp add: one_bid_fields priceAdjustment_0)
  ultimately obtain s' where
    h: "OrderBookMessageHandler FUTURE 2 (top_only 9100) (top_only 5) (top_only 9000) (top_only 5)
          one_bid = Some s'"
    using OrderBookMessageHandler_inv[OF one_bid_inv] by blast
  from C2_crossed_orders_get_a_cancel[OF one_bid_inv h]
  have "9900 \<in> set (mBidPrices s') \<and> CancelOrder 1 \<in> set (sent s')"
    by (simp add: one_bid_fields top_only_def id_at_def order_at_def deref_def)
  with h one_bid_inv show ?thesis by blast
qed

text \<open>
  An order that has been sent a cancel is still in the registry when the update is over:
  after the update 10000/10100 on a new engine and the update 9000/9100, the bid prices
  9700, 9800 and 9900 lie above the best ask 9100.
\<close>

theorem C2_crossed_orders_stay_in_registry:
  "map_option mBidPrices
     (Option.bind
        (OrderBookMessageHandler FUTURE 1 (top_only 10100) (top_only 5) (top_only 10000) (top_only 5)
           new_AutoTrader)
        (OrderBookMessageHandler FUTURE 2 (top_only 9100) (top_only 5) (top_only 9000) (top_only 5)))
   = Some [8700, 8800, 8900, 9700, 9800, 9900]"
  by code_simp

subsection \<open>The ladder levels lie in the band\<close>

lemma unat_bid_level:
  assumes "k * TICK_SIZE_IN_CENTS \<le> unat f" and "unat f < 2 ^ 32" and "k \<le> NUM_CLONES"
  shows "unat (bid_level f k) = unat f - k * TICK_SIZE_IN_CENTS"
proof -
  define d :: ulong where "d = of_nat (k * TICK_SIZE_IN_CENTS)"
  have ud: "unat d = k * TICK_SIZE_IN_CENTS"
    unfolding d_def by (rule unat_tick_offset[OF assms(3)])
  have "d \<le> f" using assms(1) ud by (simp only: word_le_nat_alt)
  then have "unat (f - d) = unat f - unat d" by (simp add: unat_sub)
  then have "unat (to_uint (f - d)) = unat f - unat d"
    using assms(2) by (simp add: unat_to_uint)
  then show ?thesis unfolding bid_level_def d_def[symmetric] ud .
qed

lemma unat_ask_level:
  assumes "unat f + k * TICK_SIZE_IN_CENTS < 2 ^ 32" and "k \<le> NUM_CLONES"
  shows "unat (ask_level f k) = unat f + k * TICK_SIZE_IN_CENTS"
proof -
  define d :: ulong where "d = of_nat (k * TICK_SIZE_IN_CENTS)"
  have ud: "unat d = k * TICK_SIZE_IN_CENTS"
    unfolding d_def by (rule unat_tick_offset[OF assms(2)])
  have "unat (f + d) = unat f + unat d"
    using assms(1) ud by (simp add: unat_word_ariths)
  then have "unat (to_uint (f + d)) = unat f + unat d"
    using assms(1) ud by (simp add: unat_to_uint)
  then show ?thesis unfolding ask_level_def d_def[symmetric] ud .
qed

lemma bid_level_in_band:
  assumes w: "NUM_CLONES * TICK_SIZE_IN_CENTS \<le> unat f" "unat f < 2 ^ 32" and k: "k < NUM_CLONES"
  shows "\<not> bid_out_of_band f (bid_level f k)"
proof -
  define d :: ulong where "d = of_nat (NUM_CLONES * TICK_SIZE_IN_CENTS)"
  have ud: "unat d = NUM_CLONES * TICK_SIZE_IN_CENTS"
    unfolding d_def by (rule unat_tick_offset) simp
  have "d \<le> f" using w(1) ud by (simp only: word_le_nat_alt)
  then have low: "unat (f - d) = unat f - NUM_CLONES * TICK_SIZE_IN_CENTS"
    using ud by (simp add: unat_sub)
  have kk: "k * TICK_SIZE_IN_CENTS < NUM_CLONES * TICK_SIZE_IN_CENTS"
    using k by (simp add: TICK_SIZE_IN_CENTS_def)
  with w(1) have "k * TICK_SIZE_IN_CENTS \<le> unat f" by linarith
  from unat_bid_level[OF this w(2)] k
  have lv: "unat (bid_level f k) = unat f - k * TICK_SIZE_IN_CENTS" by simp
  have "\<not> f < bid_level f k" using lv by (simp add: word_less_nat_alt)
  moreover have "\<not> bid_level f k \<le> f - d"
    using lv low kk w(1) by (simp only: word_le_nat_alt)
  ultimately show ?thesis unfolding bid_out_of_band_def d_def by simp
qed

lemma ask_level_in_band:
  assumes w: "unat f + NUM_CLONES * TICK_SIZE_IN_CENTS \<le> 2 ^ 32" and k: "k < NUM_CLONES"
  shows "\<not> ask_out_of_band f (ask_level f k)"
proof -
  define d :: ulong where "d = of_nat (NUM_CLONES * TICK_SIZE_IN_CENTS)"
  have ud: "unat d = NUM_CLONES * TICK_SIZE_IN_CENTS"
    unfolding d_def by (rule unat_tick_offset) simp
  have "unat f + unat d < 2 ^ 64" using w ud by simp
  then have high: "unat (f + d) = unat f + NUM_CLONES * TICK_SIZE_IN_CENTS"
    using ud by (simp add: unat_word_ariths)
  have kk: "k * TICK_SIZE_IN_CENTS < NUM_CLONES * TICK_SIZE_IN_CENTS"
    using k by (simp add: TICK_SIZE_IN_CENTS_def)
  with w have "unat f + k * TICK_SIZE_IN_CENTS < 2 ^ 32" by linarith
  from unat_ask_level[OF this] k
  have lv: "unat (ask_level f k) = unat f + k * TICK_SIZE_IN_CENTS" by simp
  have "\<not> ask_level f k < f" using lv by (simp add: word_less_nat_alt)
  moreover have "\<not> f + d \<le> ask_level f k"
    using lv high kk by (simp only: word_le_nat_alt)
  ultimately show ?thesis unfolding ask_out_of_band_def d_def by simp
qed

subsection \<open>A loop with nothing to insert\<close>

lemma insert_bids_noop:
  assumes "sint m \<le> 0 \<or> (\<forall>k. offset \<le> k \<and> k < NUM_CLONES \<longrightarrow> bid_level f k \<in> set (mBidPrices s))"
  shows "insert_bids f offset m n s = (s, m, n)"
  using assms
proof (induction "NUM_CLONES - offset" arbitrary: offset)
  case 0
  then show ?case by (intro insert_bids_stop) simp
next
  case (Suc j)
  show ?case
  proof (cases rule: insert_bids_cases[of offset m n f s])
    case stop
    then show ?thesis by simp
  next
    case skip
    have j: "j = NUM_CLONES - (offset + 1)" using Suc.hyps(2) by simp
    have "sint m \<le> 0 \<or> (\<forall>k. offset + 1 \<le> k \<and> k < NUM_CLONES \<longrightarrow> bid_level f k \<in> set (mBidPrices s))"
      using Suc.prems by auto
    from Suc.hyps(1)[OF j this] skip(5) show ?thesis by simp
  next
    case new
    with Suc.prems show ?thesis by auto
  qed
qed

lemma insert_asks_noop:
  assumes "sint m \<le> 0 \<or> (\<forall>k. offset \<le> k \<and> k < NUM_CLONES \<longrightarrow> ask_level f k \<in> set (mAskPrices s))"
  shows "insert_asks f offset m n s = (s, m, n)"
  using assms
proof (induction "NUM_CLONES - offset" arbitrary: offset)
  case 0
  then show ?case by (intro insert_asks_stop) simp
next
  case (Suc j)
  show ?case
  proof (cases rule: insert_asks_cases[of offset m n f s])
    case stop
    then show ?thesis by simp
  next
    case skip
    have j: "j = NUM_CLONES - (offset + 1)" using Suc.hyps(2) by simp
    have "sint m \<le> 0 \<or> (\<forall>k. offset + 1 \<le> k \<and> k < NUM_CLONES \<longrightarrow> ask_level f k \<in> set (mAskPrices s))"
      using Suc.prems by auto
    from Suc.hyps(1)[OF j this] skip(5) show ?thesis by simp
  next
    case new
    with Suc.prems show ?thesis by auto
  qed
qed

subsection \<open>A loop with budget to spare fills the ladder or uses up the volume\<close>

lemma insert_bids_settles:
  assumes "engine_inv s" and "unat (mNextMessageId s) + (NUM_CLONES - offset) \<le> 2 ^ 32"
    and "insert_bids f offset m n s = (s', m', n')"
    and "int (NUM_CLONES - offset) \<le> n"
  shows "m' + total_bid_volume s' = m + total_bid_volume s \<and>
         (sint m' \<le> 0 \<or> (\<forall>k. offset \<le> k \<and> k < NUM_CLONES \<longrightarrow> bid_level f k \<in> set (mBidPrices s'))) \<and>
         n - int (NUM_CLONES - offset) \<le> n' \<and>
         (\<forall>y\<in>set (mBidPrices s). order_at (mBidToOrder s') (heap s') y = order_at (mBidToOrder s) (heap s) y) \<and>
         (\<forall>y\<in>set (mAskPrices s). order_at (mAskToOrder s') (heap s') y = order_at (mAskToOrder s) (heap s) y)"
  using assms
proof (induction "NUM_CLONES - offset" arbitrary: offset m n s)
  case 0
  then have "insert_bids f offset m n s = (s, m, n)" by (intro insert_bids_stop) simp
  with 0 show ?case by auto
next
  case (Suc j)
  have j: "j = NUM_CLONES - (offset + 1)" using Suc.hyps(2) by simp
  have o: "offset < NUM_CLONES" using Suc.hyps(2) by simp
  have npos: "0 < n" using Suc.prems(4) o by simp
  show ?case
  proof (cases rule: insert_bids_cases[of offset m n f s])
    case stop
    with o npos have "sint m \<le> 0" by simp
    with stop(2) Suc.prems(3) show ?thesis by simp
  next
    case skip
    have e: "insert_bids f (offset + 1) m n s = (s', m', n')" using skip(5) Suc.prems(3) by simp
    have b: "unat (mNextMessageId s) + (NUM_CLONES - (offset + 1)) \<le> 2 ^ 32"
      using Suc.prems(2) by simp
    have n1: "int (NUM_CLONES - (offset + 1)) \<le> n" using Suc.prems(4) by simp
    from Suc.hyps(1)[OF j Suc.prems(1) b e n1] have
      1: "m' + total_bid_volume s' = m + total_bid_volume s"
      and 2: "sint m' \<le> 0 \<or> (\<forall>k. offset + 1 \<le> k \<and> k < NUM_CLONES \<longrightarrow> bid_level f k \<in> set (mBidPrices s'))"
      and 3: "n - int (NUM_CLONES - (offset + 1)) \<le> n'"
      and 4: "\<forall>y\<in>set (mBidPrices s). order_at (mBidToOrder s') (heap s') y = order_at (mBidToOrder s) (heap s) y"
      and 5: "\<forall>y\<in>set (mAskPrices s). order_at (mAskToOrder s') (heap s') y = order_at (mAskToOrder s) (heap s) y"
      by simp_all
    have here: "bid_level f offset \<in> set (mBidPrices s')"
      using insert_bids_grows[OF e] skip(4) by blast
    have q2: "sint m' \<le> 0 \<or> (\<forall>k. offset \<le> k \<and> k < NUM_CLONES \<longrightarrow> bid_level f k \<in> set (mBidPrices s'))"
    proof (cases "sint m' \<le> 0")
      case False
      with 2 have a: "\<forall>k. offset + 1 \<le> k \<and> k < NUM_CLONES \<longrightarrow> bid_level f k \<in> set (mBidPrices s')" by simp
      have "bid_level f k \<in> set (mBidPrices s')" if "offset \<le> k" "k < NUM_CLONES" for k
        using that a here by (cases "k = offset") auto
      then show ?thesis by blast
    qed simp
    have q3: "n - int (NUM_CLONES - offset) \<le> n'" using 3 by simp
    from 1 q2 q3 4 5 show ?thesis by blast
  next
    case new
    let ?s1 = "place_bid (bid_level f offset) m s"
    have lt: "mNextMessageId s < 2 ^ 32"
      using Suc.prems(2) Suc.hyps(2) by (simp add: lt32_unat)
    have i: "engine_inv ?s1"
      using Suc.prems(1) new(4) bid_level_lt lt by (intro engine_inv_place_bid)
    have u: "unat (mNextMessageId ?s1) = unat (mNextMessageId s) + 1"
      using lt by (simp add: unat_succ32)
    have e: "insert_bids f (offset + 1) (m - new_order_volume m) (n - 1) ?s1 = (s', m', n')"
      using new(5) Suc.prems(3) by simp
    have b: "unat (mNextMessageId ?s1) + (NUM_CLONES - (offset + 1)) \<le> 2 ^ 32"
      using Suc.prems(2) Suc.hyps(2) u by simp
    have n1: "int (NUM_CLONES - (offset + 1)) \<le> n - 1" using Suc.prems(4) o by simp
    from Suc.hyps(1)[OF j i b e n1] have
      1: "m' + total_bid_volume s' = m - new_order_volume m + total_bid_volume ?s1"
      and 2: "sint m' \<le> 0 \<or> (\<forall>k. offset + 1 \<le> k \<and> k < NUM_CLONES \<longrightarrow> bid_level f k \<in> set (mBidPrices s'))"
      and 3: "n - 1 - int (NUM_CLONES - (offset + 1)) \<le> n'"
      and 4: "\<forall>y\<in>set (mBidPrices ?s1). order_at (mBidToOrder s') (heap s') y = order_at (mBidToOrder ?s1) (heap ?s1) y"
      and 5: "\<forall>y\<in>set (mAskPrices ?s1). order_at (mAskToOrder s') (heap s') y = order_at (mAskToOrder ?s1) (heap ?s1) y"
      by simp_all
    have q1: "m' + total_bid_volume s' = m + total_bid_volume s"
      using 1 total_bid_volume_place_bid[OF Suc.prems(1) new(4), of m] by simp
    have here: "bid_level f offset \<in> set (mBidPrices s')"
      using insert_bids_grows[OF e] by (auto simp: set_emplace_props)
    have q2: "sint m' \<le> 0 \<or> (\<forall>k. offset \<le> k \<and> k < NUM_CLONES \<longrightarrow> bid_level f k \<in> set (mBidPrices s'))"
    proof (cases "sint m' \<le> 0")
      case False
      with 2 have a: "\<forall>k. offset + 1 \<le> k \<and> k < NUM_CLONES \<longrightarrow> bid_level f k \<in> set (mBidPrices s')" by simp
      have "bid_level f k \<in> set (mBidPrices s')" if "offset \<le> k" "k < NUM_CLONES" for k
        using that a here by (cases "k = offset") auto
      then show ?thesis by blast
    qed simp
    have q3: "n - int (NUM_CLONES - offset) \<le> n'" using 3 o by simp
    have q4: "\<forall>y\<in>set (mBidPrices s). order_at (mBidToOrder s') (heap s') y = order_at (mBidToOrder s) (heap s) y"
    proof
      fix y assume y: "y \<in> set (mBidPrices s)"
      then have "y \<in> set (mBidPrices ?s1)" by (simp add: set_emplace_props)
      with 4 have "order_at (mBidToOrder s') (heap s') y = order_at (mBidToOrder ?s1) (heap ?s1) y" by blast
      with place_bid_order_at_old[OF Suc.prems(1) new(4) y, of m]
      show "order_at (mBidToOrder s') (heap s') y = order_at (mBidToOrder s) (heap s) y" by simp
    qed
    have q5: "\<forall>y\<in>set (mAskPrices s). order_at (mAskToOrder s') (heap s') y = order_at (mAskToOrder s) (heap s) y"
    proof
      fix y assume y: "y \<in> set (mAskPrices s)"
      with 5 have "order_at (mAskToOrder s') (heap s') y = order_at (mAskToOrder ?s1) (heap ?s1) y" by simp
      with place_bid_order_at_ask[OF Suc.prems(1) y, of "bid_level f offset" m]
      show "order_at (mAskToOrder s') (heap s') y = order_at (mAskToOrder s) (heap s) y" by simp
    qed
    from q1 q2 q3 q4 q5 show ?thesis by blast
  qed
qed

lemma insert_asks_settles:
  assumes "engine_inv s" and "unat (mNextMessageId s) + (NUM_CLONES - offset) \<le> 2 ^ 32"
    and "insert_asks f offset m n s = (s', m', n')"
    and "int (NUM_CLONES - offset) \<le> n"
  shows "m' + total_ask_volume s' = m + total_ask_volume s \<and>
         (sint m' \<le> 0 \<or> (\<forall>k. offset \<le> k \<and> k < NUM_CLONES \<longrightarrow> ask_level f k \<in> set (mAskPrices s'))) \<and>
         n - int (NUM_CLONES - offset) \<le> n' \<and>
         (\<forall>y\<in>set (mAskPrices s). order_at (mAskToOrder s') (heap s') y = order_at (mAskToOrder s) (heap s) y) \<and>
         (\<forall>y\<in>set (mBidPrices s). order_at (mBidToOrder s') (heap s') y = order_at (mBidToOrder s) (heap s) y)"
  using assms
proof (induction "NUM_CLONES - offset" arbitrary: offset m n s)
  case 0
  then have "insert_asks f offset m n s = (s, m, n)" by (intro insert_asks_stop) simp
  with 0 show ?case by auto
next
  case (Suc j)
  have j: "j = NUM_CLONES - (offset + 1)" using Suc.hyps(2) by simp
  have o: "offset < NUM_CLONES" using Suc.hyps(2) by simp
  have npos: "0 < n" using Suc.prems(4) o by simp
  show ?case
  proof (cases rule: insert_asks_cases[of offset m n f s])
    case stop
    with o npos have "sint m \<le> 0" by simp
    with stop(2) Suc.prems(3) show ?thesis by simp
  next
    case skip
    have e: "insert_asks f (offset + 1) m n s = (s', m', n')" using skip(5) Suc.prems(3) by simp
    have b: "unat (mNextMessageId s) + (NUM_CLONES - (offset + 1)) \<le> 2 ^ 32"
      using Suc.prems(2) by simp
    have n1: "int (NUM_CLONES - (offset + 1)) \<le> n" using Suc.prems(4) by simp
    from Suc.hyps(1)[OF j Suc.prems(1) b e n1] have
      1: "m' + total_ask_volume s' = m + total_ask_volume s"
      and 2: "sint m' \<le> 0 \<or> (\<forall>k. offset + 1 \<le> k \<and> k < NUM_CLONES \<longrightarrow> ask_level f k \<in> set (mAskPrices s'))"
      and 3: "n - int (NUM_CLONES - (offset + 1)) \<le> n'"
      and 4: "\<forall>y\<in>set (mAskPrices s). order_at (mAskToOrder s') (heap s') y = order_at (mAskToOrder s) (heap s) y"
      and 5: "\<forall>y\<in>set (mBidPrices s). order_at (mBidToOrder s') (heap s') y = order_at (mBidToOrder s) (heap s) y"
      by simp_all
    have here: "ask_level f offset \<in> set (mAskPrices s')"
      using insert_asks_grows[OF e] skip(4) by blast
    have q2: "sint m' \<le> 0 \<or> (\<forall>k. offset \<le> k \<and> k < NUM_CLONES \<longrightarrow> ask_level f k \<in> set (mAskPrices s'))"
    proof (cases "sint m' \<le> 0")
      case False
      with 2 have a: "\<forall>k. offset + 1 \<le> k \<and> k < NUM_CLONES \<longrightarrow> ask_level f k \<in> set (mAskPrices s')" by simp
      have "ask_level f k \<in> set (mAskPrices s')" if "offset \<le> k" "k < NUM_CLONES" for k
        using that a here by (cases "k = offset") auto
      then show ?thesis by blast
    qed simp
    have q3: "n - int (NUM_CLONES - offset) \<le> n'" using 3 by simp
    from 1 q2 q3 4 5 show ?thesis by blast
  next
    case new
    let ?s1 = "place_ask (ask_level f offset) m s"
    have lt: "mNextMessageId s < 2 ^ 32"
      using Suc.prems(2) Suc.hyps(2) by (simp add: lt32_unat)
    have i: "engine_inv ?s1"
      using Suc.prems(1) new(4) ask_level_lt lt by (intro engine_inv_place_ask)
    have u: "unat (mNextMessageId ?s1) = unat (mNextMessageId s) + 1"
      using lt by (simp add: unat_succ32)
    have e: "insert_asks f (offset + 1) (m - new_order_volume m) (n - 1) ?s1 = (s', m', n')"
      using new(5) Suc.prems(3) by simp
    have b: "unat (mNextMessageId ?s1) + (NUM_CLONES - (offset + 1)) \<le> 2 ^ 32"
      using Suc.prems(2) Suc.hyps(2) u by simp
    have n1: "int (NUM_CLONES - (offset + 1)) \<le> n - 1" using Suc.prems(4) o by simp
    from Suc.hyps(1)[OF j i b e n1] have
      1: "m' + total_ask_volume s' = m - new_order_volume m + total_ask_volume ?s1"
      and 2: "sint m' \<le> 0 \<or> (\<forall>k. offset + 1 \<le> k \<and> k < NUM_CLONES \<longrightarrow> ask_level f k \<in> set (mAskPrices s'))"
      and 3: "n - 1 - int (NUM_CLONES - (offset + 1)) \<le> n'"
      and 4: "\<forall>y\<in>set (mAskPrices ?s1). order_at (mAskToOrder s') (heap s') y = order_at (mAskToOrder ?s1) (heap ?s1) y"
      and 5: "\<forall>y\<in>set (mBidPrices ?s1). order_at (mBidToOrder s') (heap s') y = order_at (mBidToOrder ?s1) (heap ?s1) y"
      by simp_all
    have q1: "m' + total_ask_volume s' = m + total_ask_volume s"
      using 1 total_ask_volume_place_ask[OF Suc.prems(1) new(4), of m] by simp
    have here: "ask_level f offset \<in> set (mAskPrices s')"
      using insert_asks_grows[OF e] by (auto simp: set_emplace_props)
    have q2: "sint m' \<le> 0 \<or> (\<forall>k. offset \<le> k \<and> k < NUM_CLONES \<longrightarrow> ask_level f k \<in> set (mAskPrices s'))"
    proof (cases "sint m' \<le> 0")
      case False
      with 2 have a: "\<forall>k. offset + 1 \<le> k \<and> k < NUM_CLONES \<longrightarrow> ask_level f k \<in> set (mAskPrices s')" by simp
      have "ask_level f k \<in> set (mAskPrices s')" if "offset \<le> k" "k < NUM_CLONES" for k
        using that a here by (cases "k = offset") auto
      then show ?thesis by blast
    qed simp
    have q3: "n - int (NUM_CLONES - offset) \<le> n'" using 3 o by simp
    have q4: "\<forall>y\<in>set (mAskPrices s). order_at (mAskToOrder s') (heap s') y = order_at (mAskToOrder s) (heap s) y"
    proof
      fix y assume y: "y \<in> set (mAskPrices s)"
      then have "y \<in> set (mAskPrices ?s1)" by (simp add: set_emplace_props)
      with 4 have "order_at (mAskToOrder s') (heap s') y = order_at (mAskToOrder ?s1) (heap ?s1) y" by blast
      with place_ask_order_at_old[OF Suc.prems(1) new(4) y, of m]
      show "order_at (mAskToOrder s') (heap s') y = order_at (mAskToOrder s) (heap s) y" by simp
    qed
    have q5: "\<forall>y\<in>set (mBidPrices s). order_at (mBidToOrder s') (heap s') y = order_at (mBidToOrder s) (heap s) y"
    proof
      fix y assume y: "y \<in> set (mBidPrices s)"
      with 5 have "order_at (mBidToOrder s') (heap s') y = order_at (mBidToOrder ?s1) (heap ?s1) y" by simp
      with place_ask_order_at_bid[OF Suc.prems(1) y, of "ask_level f offset" m]
      show "order_at (mBidToOrder s') (heap s') y = order_at (mBidToOrder s) (heap s) y" by simp
    qed
    from q1 q2 q3 q4 q5 show ?thesis by blast
  qed
qed

subsection \<open>A side that has nothing left to do\<close>

lemma side_settled_frame [simp]:
  "bid_side_settled f (s\<lparr> mMessageTracker := t \<rparr>) = bid_side_settled f s"
  "bid_side_settled f (s\<lparr> clock := c \<rparr>) = bid_side_settled f s"
  "bid_side_settled f (s\<lparr> sent := out \<rparr>) = bid_side_settled f s"
  "ask_side_settled f (s\<lparr> mMessageTracker := t \<rparr>) = ask_side_settled f s"
  "ask_side_settled f (s\<lparr> clock := c \<rparr>) = ask_side_settled f s"
  "ask_side_settled f (s\<lparr> sent := out \<rparr>) = ask_side_settled f s"
  by (simp_all add: bid_side_settled_def ask_side_settled_def)

lemma band_bid_cancels_Nil:
  "band_bid_cancels f s = [] \<longleftrightarrow> (\<forall>x\<in>set (mBidPrices s). \<not> bid_out_of_band f x)"
  by (simp add: band_bid_cancels_def filter_empty_conv)

lemma band_ask_cancels_Nil:
  "band_ask_cancels f s = [] \<longleftrightarrow> (\<forall>x\<in>set (mAskPrices s). \<not> ask_out_of_band f x)"
  by (simp add: band_ask_cancels_def filter_empty_conv)

lemma arb_bid_cancels_Nil:
  "arb_bid_cancels a s = [] \<longleftrightarrow> (\<forall>x\<in>set (mBidPrices s). \<not> a < x)"
  by (simp add: arb_bid_cancels_def filter_empty_conv)

lemma arb_ask_cancels_Nil:
  "arb_ask_cancels b s = [] \<longleftrightarrow> (\<forall>x\<in>set (mAskPrices s). \<not> x < b)"
  by (simp add: arb_ask_cancels_def filter_empty_conv)

lemma total_bid_volume_cong:
  assumes "mBidPrices s' = mBidPrices s"
    and "\<forall>y\<in>set (mBidPrices s). order_at (mBidToOrder s') (heap s') y = order_at (mBidToOrder s) (heap s) y"
  shows "total_bid_volume s' = total_bid_volume s"
proof -
  have "map (volume_at (mBidToOrder s') (heap s')) (mBidPrices s)
          = map (volume_at (mBidToOrder s) (heap s)) (mBidPrices s)"
    using assms(2) by (intro map_cong) (simp_all add: volume_at_def)
  then show ?thesis unfolding total_bid_volume_def assms(1) by (rule arg_cong)
qed

lemma total_ask_volume_cong:
  assumes "mAskPrices s' = mAskPrices s"
    and "\<forall>y\<in>set (mAskPrices s). order_at (mAskToOrder s') (heap s') y = order_at (mAskToOrder s) (heap s) y"
  shows "total_ask_volume s' = total_ask_volume s"
proof -
  have "map (volume_at (mAskToOrder s') (heap s')) (mAskPrices s)
          = map (volume_at (mAskToOrder s) (heap s)) (mAskPrices s)"
    using assms(2) by (intro map_cong) (simp_all add: volume_at_def)
  then show ?thesis unfolding total_ask_volume_def assms(1) by (rule arg_cong)
qed

text \<open>The bid side of an update that has the budget for a whole ladder and cancels nothing.\<close>

lemma adjust_bid_side_first:
  assumes inv: "engine_inv s" and idb: "unat (mNextMessageId s) + NUM_CLONES \<le> 2 ^ 32"
    and r: "adjust_bid_side b a adj n s = Some (s', n')"
    and bud: "int NUM_CLONES \<le> n"
    and nx: "\<forall>x\<in>set (mBidPrices s). \<not> a < x"
    and st: "b \<noteq> 0 \<longrightarrow> band_bid_cancels (frontBid_of b a adj) s = [] \<and>
               NUM_CLONES * TICK_SIZE_IN_CENTS \<le> unat (frontBid_of b a adj) \<and>
               unat (frontBid_of b a adj) < 2 ^ 32"
  shows "engine_inv s'" and "mPosition s' = mPosition s"
    and "unat (mNextMessageId s') \<le> unat (mNextMessageId s) + NUM_CLONES"
    and "n - int NUM_CLONES \<le> n'"
    and "\<forall>x\<in>set (mBidPrices s'). \<not> a < x"
    and "b \<noteq> 0 \<longrightarrow> bid_side_settled (frontBid_of b a adj) s'"
    and "mAskPrices s' = mAskPrices s"
    and "\<forall>y\<in>set (mAskPrices s). order_at (mAskToOrder s') (heap s') y = order_at (mAskToOrder s) (heap s) y"
proof -
  let ?f = "frontBid_of b a adj"
  from adjust_bid_side_inv[OF inv idb, of b a adj n] r
  show i': "engine_inv s'" and p': "mPosition s' = mPosition s"
    and "unat (mNextMessageId s') \<le> unat (mNextMessageId s) + NUM_CLONES"
    by auto
  have main: "(n - int NUM_CLONES \<le> n') \<and> (\<forall>x\<in>set (mBidPrices s'). \<not> a < x) \<and>
        (b \<noteq> 0 \<longrightarrow> bid_side_settled ?f s') \<and> mAskPrices s' = mAskPrices s \<and>
        (\<forall>y\<in>set (mAskPrices s). order_at (mAskToOrder s') (heap s') y = order_at (mAskToOrder s) (heap s) y)"
  proof (cases "b = 0")
    case True
    with r have "s' = s" "n' = n" by (simp_all add: adjust_bid_side_def)
    with True nx show ?thesis by simp
  next
    case False
    with st have nc: "band_bid_cancels ?f s = []"
      and w: "NUM_CLONES * TICK_SIZE_IN_CENTS \<le> unat ?f" "unat ?f < 2 ^ 32" by simp_all
    let ?m = "(word_of_int POSITION_LIMIT :: long) - mPosition s - total_bid_volume s"
    from adjust_bid_side_run[OF inv False, of a adj n] r nc obtain t c m' where
      ins: "insert_bids ?f 0 ?m n (s\<lparr> mMessageTracker := t, clock := c, sent := sent s \<rparr>) = (s', m', n')"
      by auto
    let ?s0 = "s\<lparr> mMessageTracker := t, clock := c, sent := sent s \<rparr>"
    have i0: "engine_inv ?s0" using inv by simp
    have b0: "unat (mNextMessageId ?s0) + (NUM_CLONES - 0) \<le> 2 ^ 32" using idb by simp
    have n0: "int (NUM_CLONES - 0) \<le> n" using bud by simp
    from insert_bids_settles[OF i0 b0 ins n0] have
      1: "m' + total_bid_volume s' = ?m + total_bid_volume s"
      and 2: "sint m' \<le> 0 \<or> (\<forall>k<NUM_CLONES. bid_level ?f k \<in> set (mBidPrices s'))"
      and 3: "n - int NUM_CLONES \<le> n'"
      and 5: "\<forall>y\<in>set (mAskPrices s). order_at (mAskToOrder s') (heap s') y = order_at (mAskToOrder s) (heap s) y"
      by simp_all
    from insert_bids_grows[OF ins] have
      g: "set (mBidPrices s') \<subseteq> set (mBidPrices s) \<union> bid_level ?f ` {0..<NUM_CLONES}"
      and ga: "mAskPrices s' = mAskPrices s"
      by simp_all
    have m': "(word_of_int POSITION_LIMIT :: long) - mPosition s' - total_bid_volume s' = m'"
      using 1 p' by (simp add: algebra_simps)
    have lv: "\<not> bid_out_of_band ?f x \<and> \<not> a < x" if "x \<in> bid_level ?f ` {0..<NUM_CLONES}" for x
    proof -
      from that obtain k where k: "k < NUM_CLONES" "x = bid_level ?f k" by auto
      have "k * TICK_SIZE_IN_CENTS \<le> NUM_CLONES * TICK_SIZE_IN_CENTS"
        using k(1) by (intro mult_le_mono1) simp
      with w(1) have "k * TICK_SIZE_IN_CENTS \<le> unat ?f" by linarith
      from bid_level_le[OF this k(1)] frontBid_le_ask[of b a adj]
      have "\<not> a < bid_level ?f k" by simp
      with bid_level_in_band[OF w k(1)] k(2) show ?thesis by simp
    qed
    have old: "\<not> bid_out_of_band ?f x \<and> \<not> a < x" if "x \<in> set (mBidPrices s)" for x
      using that nc nx by (simp add: band_bid_cancels_Nil)
    have all: "\<forall>x\<in>set (mBidPrices s'). \<not> bid_out_of_band ?f x \<and> \<not> a < x"
      using g lv old by blast
    then have "bid_side_settled ?f s'"
      unfolding bid_side_settled_def m' using 2 by blast
    with 3 5 ga all show ?thesis by blast
  qed
  from main show "n - int NUM_CLONES \<le> n'" by blast
  from main show "\<forall>x\<in>set (mBidPrices s'). \<not> a < x" by blast
  from main show "b \<noteq> 0 \<longrightarrow> bid_side_settled ?f s'" by blast
  from main show "mAskPrices s' = mAskPrices s" by blast
  from main show "\<forall>y\<in>set (mAskPrices s). order_at (mAskToOrder s') (heap s') y = order_at (mAskToOrder s) (heap s) y"
    by blast
qed

lemma adjust_ask_side_first:
  assumes inv: "engine_inv s" and idb: "unat (mNextMessageId s) + NUM_CLONES \<le> 2 ^ 32"
    and r: "adjust_ask_side b a adj n s = Some (s', n')"
    and bud: "int NUM_CLONES \<le> n"
    and nx: "\<forall>x\<in>set (mAskPrices s). \<not> x < b"
    and st: "a \<noteq> 0 \<longrightarrow> band_ask_cancels (frontAsk_of b a adj) s = [] \<and>
               unat (frontAsk_of b a adj) + NUM_CLONES * TICK_SIZE_IN_CENTS \<le> 2 ^ 32"
  shows "engine_inv s'" and "mPosition s' = mPosition s"
    and "unat (mNextMessageId s') \<le> unat (mNextMessageId s) + NUM_CLONES"
    and "n - int NUM_CLONES \<le> n'"
    and "\<forall>x\<in>set (mAskPrices s'). \<not> x < b"
    and "a \<noteq> 0 \<longrightarrow> ask_side_settled (frontAsk_of b a adj) s'"
    and "mBidPrices s' = mBidPrices s"
    and "\<forall>y\<in>set (mBidPrices s). order_at (mBidToOrder s') (heap s') y = order_at (mBidToOrder s) (heap s) y"
proof -
  let ?f = "frontAsk_of b a adj"
  from adjust_ask_side_inv[OF inv idb, of b a adj n] r
  show i': "engine_inv s'" and p': "mPosition s' = mPosition s"
    and "unat (mNextMessageId s') \<le> unat (mNextMessageId s) + NUM_CLONES"
    by auto
  have main: "(n - int NUM_CLONES \<le> n') \<and> (\<forall>x\<in>set (mAskPrices s'). \<not> x < b) \<and>
        (a \<noteq> 0 \<longrightarrow> ask_side_settled ?f s') \<and> mBidPrices s' = mBidPrices s \<and>
        (\<forall>y\<in>set (mBidPrices s). order_at (mBidToOrder s') (heap s') y = order_at (mBidToOrder s) (heap s) y)"
  proof (cases "a = 0")
    case True
    with r have "s' = s" "n' = n" by (simp_all add: adjust_ask_side_def)
    with True nx show ?thesis by simp
  next
    case False
    with st have nc: "band_ask_cancels ?f s = []"
      and w: "unat ?f + NUM_CLONES * TICK_SIZE_IN_CENTS \<le> 2 ^ 32" by simp_all
    let ?m = "(word_of_int POSITION_LIMIT :: long) + mPosition s - total_ask_volume s"
    from adjust_ask_side_run[OF inv False, of b adj n] r nc obtain t c m' where
      ins: "insert_asks ?f 0 ?m n (s\<lparr> mMessageTracker := t, clock := c, sent := sent s \<rparr>) = (s', m', n')"
      by auto
    let ?s0 = "s\<lparr> mMessageTracker := t, clock := c, sent := sent s \<rparr>"
    have i0: "engine_inv ?s0" using inv by simp
    have b0: "unat (mNextMessageId ?s0) + (NUM_CLONES - 0) \<le> 2 ^ 32" using idb by simp
    have n0: "int (NUM_CLONES - 0) \<le> n" using bud by simp
    from insert_asks_settles[OF i0 b0 ins n0] have
      1: "m' + total_ask_volume s' = ?m + total_ask_volume s"
      and 2: "sint m' \<le> 0 \<or> (\<forall>k<NUM_CLONES. ask_level ?f k \<in> set (mAskPrices s'))"
      and 3: "n - int NUM_CLONES \<le> n'"
      and 5: "\<forall>y\<in>set (mBidPrices s). order_at (mBidToOrder s') (heap s') y = order_at (mBidToOrder s) (heap s) y"
      by simp_all
    from insert_asks_grows[OF ins] have
      g: "set (mAskPrices s') \<subseteq> set (mAskPrices s) \<union> ask_level ?f ` {0..<NUM_CLONES}"
      and ga: "mBidPrices s' = mBidPrices s"
      by simp_all
    have m': "(word_of_int POSITION_LIMIT :: long) + mPosition s' - total_ask_volume s' = m'"
      using 1 p' by (simp add: algebra_simps)
    have lv: "\<not> ask_out_of_band ?f x \<and> \<not> x < b" if "x \<in> ask_level ?f ` {0..<NUM_CLONES}" for x
    proof -
      from that obtain k where k: "k < NUM_CLONES" "x = ask_level ?f k" by auto
      have "k * TICK_SIZE_IN_CENTS < NUM_CLONES * TICK_SIZE_IN_CENTS"
        using k(1) by (simp add: TICK_SIZE_IN_CENTS_def)
      with w have "unat ?f + k * TICK_SIZE_IN_CENTS < 2 ^ 32" by linarith
      from ask_level_ge[OF this k(1)] frontAsk_ge_bid[of b a adj]
      have "\<not> ask_level ?f k < b" by simp
      with ask_level_in_band[OF w k(1)] k(2) show ?thesis by simp
    qed
    have old: "\<not> ask_out_of_band ?f x \<and> \<not> x < b" if "x \<in> set (mAskPrices s)" for x
      using that nc nx by (simp add: band_ask_cancels_Nil)
    have all: "\<forall>x\<in>set (mAskPrices s'). \<not> ask_out_of_band ?f x \<and> \<not> x < b"
      using g lv old by blast
    then have "ask_side_settled ?f s'"
      unfolding ask_side_settled_def m' using 2 by blast
    with 3 5 ga all show ?thesis by blast
  qed
  from main show "n - int NUM_CLONES \<le> n'" by blast
  from main show "\<forall>x\<in>set (mAskPrices s'). \<not> x < b" by blast
  from main show "a \<noteq> 0 \<longrightarrow> ask_side_settled ?f s'" by blast
  from main show "mBidPrices s' = mBidPrices s" by blast
  from main show "\<forall>y\<in>set (mBidPrices s). order_at (mBidToOrder s') (heap s') y = order_at (mBidToOrder s) (heap s) y"
    by blast
qed

text \<open>A settled side is left alone, whatever the budget.\<close>

lemma adjust_bid_side_again:
  assumes inv: "engine_inv s" and st: "b \<noteq> 0 \<longrightarrow> bid_side_settled (frontBid_of b a adj) s"
  shows "\<exists>t c. adjust_bid_side b a adj n s = Some (s\<lparr> mMessageTracker := t, clock := c \<rparr>, n)"
proof (cases "b = 0")
  case True
  then have "adjust_bid_side b a adj n s
               = Some (s\<lparr> mMessageTracker := mMessageTracker s, clock := clock s \<rparr>, n)"
    by (simp add: adjust_bid_side_def)
  then show ?thesis by blast
next
  case False
  let ?f = "frontBid_of b a adj"
  let ?m = "(word_of_int POSITION_LIMIT :: long) - mPosition s - total_bid_volume s"
  from False st have se: "bid_side_settled ?f s" by simp
  then have nc: "band_bid_cancels ?f s = []"
    by (simp add: bid_side_settled_def band_bid_cancels_Nil)
  from adjust_bid_side_run[OF inv False, of a adj n] nc obtain t c s' m' n' where
    ins: "insert_bids ?f 0 ?m n (s\<lparr> mMessageTracker := t, clock := c \<rparr>) = (s', m', n')"
    and r: "adjust_bid_side b a adj n s = Some (s', n')"
    by auto
  let ?s0 = "s\<lparr> mMessageTracker := t, clock := c \<rparr>"
  have "sint ?m \<le> 0 \<or> (\<forall>k. 0 \<le> k \<and> k < NUM_CLONES \<longrightarrow> bid_level ?f k \<in> set (mBidPrices ?s0))"
    using se by (simp add: bid_side_settled_def)
  from insert_bids_noop[OF this, of n] ins have "s' = ?s0" "n' = n" by simp_all
  with r have "adjust_bid_side b a adj n s = Some (s\<lparr> mMessageTracker := t, clock := c \<rparr>, n)"
    by simp
  then show ?thesis by blast
qed

lemma adjust_ask_side_again:
  assumes inv: "engine_inv s" and st: "a \<noteq> 0 \<longrightarrow> ask_side_settled (frontAsk_of b a adj) s"
  shows "\<exists>t c. adjust_ask_side b a adj n s = Some (s\<lparr> mMessageTracker := t, clock := c \<rparr>, n)"
proof (cases "a = 0")
  case True
  then have "adjust_ask_side b a adj n s
               = Some (s\<lparr> mMessageTracker := mMessageTracker s, clock := clock s \<rparr>, n)"
    by (simp add: adjust_ask_side_def)
  then show ?thesis by blast
next
  case False
  let ?f = "frontAsk_of b a adj"
  let ?m = "(word_of_int POSITION_LIMIT :: long) + mPosition s - total_ask_volume s"
  from False st have se: "ask_side_settled ?f s" by simp
  then have nc: "band_ask_cancels ?f s = []"
    by (simp add: ask_side_settled_def band_ask_cancels_Nil)
  from adjust_ask_side_run[OF inv False, of b adj n] nc obtain t c s' m' n' where
    ins: "insert_asks ?f 0 ?m n (s\<lparr> mMessageTracker := t, clock := c \<rparr>) = (s', m', n')"
    and r: "adjust_ask_side b a adj n s = Some (s', n')"
    by auto
  let ?s0 = "s\<lparr> mMessageTracker := t, clock := c \<rparr>"
  have "sint ?m \<le> 0 \<or> (\<forall>k. 0 \<le> k \<and> k < NUM_CLONES \<longrightarrow> ask_level ?f k \<in> set (mAskPrices ?s0))"
    using se by (simp add: ask_side_settled_def)
  from insert_asks_noop[OF this, of n] ins have "s' = ?s0" "n' = n" by simp_all
  with r have "adjust_ask_side b a adj n s = Some (s\<lparr> mMessageTracker := t, clock := c \<rparr>, n)"
    by simp
  then show ?thesis by blast
qed

text \<open>What the scan loop of a side sends comes first among what the side sends.\<close>

lemma adjust_bid_side_sent:
  assumes inv: "engine_inv s" and b: "b \<noteq> 0" and r: "adjust_bid_side b a adj n s = Some (s', n')"
  shows "\<exists>cs. sent s' = sent s @ band_bid_cancels (frontBid_of b a adj) s @ cs"
proof -
  from adjust_bid_side_run[OF inv b, of a adj n] r obtain t c m' where
    ins: "insert_bids (frontBid_of b a adj) 0
             ((word_of_int POSITION_LIMIT :: long) - mPosition s - total_bid_volume s) n
             (s\<lparr> mMessageTracker := t, clock := c,
                 sent := sent s @ band_bid_cancels (frontBid_of b a adj) s \<rparr>) = (s', m', n')"
    by auto
  from insert_bids_grows[OF ins] show ?thesis by auto
qed

lemma adjust_ask_side_sent:
  assumes inv: "engine_inv s" and a: "a \<noteq> 0" and r: "adjust_ask_side b a adj n s = Some (s', n')"
  shows "\<exists>cs. sent s' = sent s @ band_ask_cancels (frontAsk_of b a adj) s @ cs"
proof -
  from adjust_ask_side_run[OF inv a, of b adj n] r obtain t c m' where
    ins: "insert_asks (frontAsk_of b a adj) 0
             ((word_of_int POSITION_LIMIT :: long) + mPosition s - total_ask_volume s) n
             (s\<lparr> mMessageTracker := t, clock := c,
                 sent := sent s @ band_ask_cancels (frontAsk_of b a adj) s \<rparr>) = (s', m', n')"
    by auto
  from insert_asks_grows[OF ins] show ?thesis by auto
qed

lemma cancels_Nil:
  "\<forall>c\<in>set (band_bid_cancels f s). is_cancel c" "\<forall>c\<in>set (band_ask_cancels f s). is_cancel c"
  "\<forall>c\<in>set (arb_bid_cancels f s). is_cancel c" "\<forall>c\<in>set (arb_ask_cancels f s). is_cancel c"
  by (auto simp: band_bid_cancels_def band_ask_cancels_def arb_bid_cancels_def arb_ask_cancels_def)

lemma no_cancel_Nil:
  assumes "\<forall>c\<in>set cs. is_cancel c" and "\<forall>c\<in>set (xs @ cs @ ys). \<not> is_cancel c"
  shows "cs = []"
  using assms by (cases cs) auto

subsection \<open>The same snapshot twice\<close>

lemma OrderBookMessageHandler_again:
  assumes inv: "engine_inv s" and adj: "priceAdjustment_of (mPosition s) = Some adj"
    and nxb: "\<forall>x\<in>set (mBidPrices s). \<not> ap 0 < x"
    and nxa: "\<forall>x\<in>set (mAskPrices s). \<not> x < bp 0"
    and sb: "bp 0 \<noteq> 0 \<longrightarrow> bid_side_settled (frontBid_of (bp 0) (ap 0) adj) s"
    and sa: "ap 0 \<noteq> 0 \<longrightarrow> ask_side_settled (frontAsk_of (bp 0) (ap 0) adj) s"
  shows "\<exists>t c. OrderBookMessageHandler FUTURE sq ap av bp bv s
                 = Some (s\<lparr> mMessageTracker := t, clock := c \<rparr>)"
proof -
  have 1: "cancel_arbitragable_bids (ap 0) (mBidPrices s) s = Some s"
    using nxb by (rule arbitrage_bids_none)
  have 2: "cancel_arbitragable_asks (bp 0) (mAskPrices s) s = Some s"
    using nxa by (rule arbitrage_asks_none)
  obtain t3 k where 3: "GetNonCancelMessagesAllowed (clock s) (mMessageTracker s) = (t3, k)"
    by (cases "GetNonCancelMessagesAllowed (clock s) (mMessageTracker s)")
  let ?s3 = "s\<lparr> mMessageTracker := t3 \<rparr>"
  have i3: "engine_inv ?s3" using inv by simp
  have sb3: "bp 0 \<noteq> 0 \<longrightarrow> bid_side_settled (frontBid_of (bp 0) (ap 0) adj) ?s3" using sb by simp
  from adjust_bid_side_again[OF i3 sb3, of k] obtain t4 c4 where
    4: "adjust_bid_side (bp 0) (ap 0) adj k ?s3 = Some (s\<lparr> mMessageTracker := t4, clock := c4 \<rparr>, k)"
    by auto
  let ?s4 = "s\<lparr> mMessageTracker := t4, clock := c4 \<rparr>"
  have i4: "engine_inv ?s4" using inv by simp
  have sa4: "ap 0 \<noteq> 0 \<longrightarrow> ask_side_settled (frontAsk_of (bp 0) (ap 0) adj) ?s4" using sa by simp
  from adjust_ask_side_again[OF i4 sa4, of k] obtain t5 c5 where
    5: "adjust_ask_side (bp 0) (ap 0) adj k ?s4 = Some (s\<lparr> mMessageTracker := t5, clock := c5 \<rparr>, k)"
    by auto
  have "OrderBookMessageHandler FUTURE sq ap av bp bv s = Some (s\<lparr> mMessageTracker := t5, clock := c5 \<rparr>)"
    using 1 2 3 4 5 adj by (simp add: OrderBookMessageHandler_def Let_def)
  then show ?thesis by blast
qed

lemma OrderBookMessageHandler_first:
  assumes inv: "engine_inv s" and idb: "unat (mNextMessageId s) + ids_per_event \<le> 2 ^ 32"
    and adj: "priceAdjustment_of (mPosition s) = Some adj"
    and h: "OrderBookMessageHandler FUTURE sq ap av bp bv s = Some s'"
    and nc: "\<forall>c\<in>set (drop (length (sent s)) (sent s')). \<not> is_cancel c"
    and bud: "int ids_per_event \<le> snd (GetNonCancelMessagesAllowed (clock s) (mMessageTracker s))"
    and wb: "bp 0 \<noteq> 0 \<longrightarrow>
               NUM_CLONES * TICK_SIZE_IN_CENTS \<le> unat (frontBid_of (bp 0) (ap 0) adj) \<and>
               unat (frontBid_of (bp 0) (ap 0) adj) < 2 ^ 32"
    and wa: "ap 0 \<noteq> 0 \<longrightarrow>
               unat (frontAsk_of (bp 0) (ap 0) adj) + NUM_CLONES * TICK_SIZE_IN_CENTS \<le> 2 ^ 32"
  shows "engine_inv s' \<and> mPosition s' = mPosition s \<and>
         (\<forall>x\<in>set (mBidPrices s'). \<not> ap 0 < x) \<and> (\<forall>x\<in>set (mAskPrices s'). \<not> x < bp 0) \<and>
         (bp 0 \<noteq> 0 \<longrightarrow> bid_side_settled (frontBid_of (bp 0) (ap 0) adj) s') \<and>
         (ap 0 \<noteq> 0 \<longrightarrow> ask_side_settled (frontAsk_of (bp 0) (ap 0) adj) s')"
proof -
  let ?fb = "frontBid_of (bp 0) (ap 0) adj" and ?fa = "frontAsk_of (bp 0) (ap 0) adj"
  from OrderBookMessageHandler_sent[OF inv h] obtain rest where
    "sent s' = sent s @ arb_bid_cancels (ap 0) s @ arb_ask_cancels (bp 0) s @ rest" by blast
  then have d0: "drop (length (sent s)) (sent s') = arb_bid_cancels (ap 0) s @ arb_ask_cancels (bp 0) s @ rest"
    by simp
  have "arb_bid_cancels (ap 0) s = []"
    using no_cancel_Nil[OF cancels_Nil(3), of "[]" "ap 0" s "arb_ask_cancels (bp 0) s @ rest"] nc d0 by simp
  then have nxb: "\<forall>x\<in>set (mBidPrices s). \<not> ap 0 < x" by (simp add: arb_bid_cancels_Nil)
  have "arb_ask_cancels (bp 0) s = []"
    using no_cancel_Nil[OF cancels_Nil(4), of "arb_bid_cancels (ap 0) s" "bp 0" s rest] nc d0 by simp
  then have nxa: "\<forall>x\<in>set (mAskPrices s). \<not> x < bp 0" by (simp add: arb_ask_cancels_Nil)
  have 1: "cancel_arbitragable_bids (ap 0) (mBidPrices s) s = Some s"
    using nxb by (rule arbitrage_bids_none)
  have 2: "cancel_arbitragable_asks (bp 0) (mAskPrices s) s = Some s"
    using nxa by (rule arbitrage_asks_none)
  obtain t3 k where 3: "GetNonCancelMessagesAllowed (clock s) (mMessageTracker s) = (t3, k)"
    by (cases "GetNonCancelMessagesAllowed (clock s) (mMessageTracker s)")
  have k: "2 * int NUM_CLONES \<le> k" using bud 3 by (simp add: ids_per_event_def)
  let ?s3 = "s\<lparr> mMessageTracker := t3 \<rparr>"
  from h 1 2 3 adj obtain s4 k4 k5 where
    4: "adjust_bid_side (bp 0) (ap 0) adj k ?s3 = Some (s4, k4)"
    and 5: "adjust_ask_side (bp 0) (ap 0) adj k4 s4 = Some (s', k5)"
    by (auto simp: OrderBookMessageHandler_def Let_def split: option.splits prod.splits)
  have i3: "engine_inv ?s3" using inv by simp
  have b3: "unat (mNextMessageId ?s3) + NUM_CLONES \<le> 2 ^ 32"
    using idb by (simp add: ids_per_event_def)
  from adjust_bid_side_grows[OF 4] obtain cs4 where g4: "sent s4 = sent s @ cs4" by auto
  from adjust_ask_side_grows[OF 5] obtain cs5 where g5: "sent s' = sent s4 @ cs5" by auto
  have ncb: "band_bid_cancels ?fb s = []" if "bp 0 \<noteq> 0"
  proof -
    from adjust_bid_side_sent[OF i3 that 4] obtain cs where
      "sent s4 = sent s @ band_bid_cancels ?fb s @ cs" by auto
    with g5 have "drop (length (sent s)) (sent s') = [] @ band_bid_cancels ?fb s @ (cs @ cs5)" by simp
    with nc no_cancel_Nil[OF cancels_Nil(1), of "[]" ?fb s "cs @ cs5"] show ?thesis by simp
  qed
  have k3: "int NUM_CLONES \<le> k" using k by simp
  have nxb3: "\<forall>x\<in>set (mBidPrices ?s3). \<not> ap 0 < x" using nxb by simp
  have st3: "bp 0 \<noteq> 0 \<longrightarrow> band_bid_cancels ?fb ?s3 = [] \<and>
               NUM_CLONES * TICK_SIZE_IN_CENTS \<le> unat ?fb \<and> unat ?fb < 2 ^ 32"
    using ncb wb by simp
  note f4 = adjust_bid_side_first[OF i3 b3 4 k3 nxb3 st3]
  have i4: "engine_inv s4" by (rule f4(1))
  have p4: "mPosition s4 = mPosition s" using f4(2) by simp
  have b4: "unat (mNextMessageId s4) + NUM_CLONES \<le> 2 ^ 32"
    using f4(3) idb by (simp add: ids_per_event_def)
  have k4: "int NUM_CLONES \<le> k4" using f4(4) k by simp
  have nxa4: "\<forall>x\<in>set (mAskPrices s4). \<not> x < bp 0" using f4(7) nxa by simp
  have nca: "band_ask_cancels ?fa s4 = []" if "ap 0 \<noteq> 0"
  proof -
    from adjust_ask_side_sent[OF i4 that 5] obtain cs where
      "sent s' = sent s4 @ band_ask_cancels ?fa s4 @ cs" by auto
    with g4 have "drop (length (sent s)) (sent s') = cs4 @ band_ask_cancels ?fa s4 @ cs" by simp
    with nc no_cancel_Nil[OF cancels_Nil(2), of cs4 ?fa s4 cs] show ?thesis by simp
  qed
  have st4: "ap 0 \<noteq> 0 \<longrightarrow> band_ask_cancels ?fa s4 = [] \<and>
               unat ?fa + NUM_CLONES * TICK_SIZE_IN_CENTS \<le> 2 ^ 32"
    using nca wa by simp
  note f5 = adjust_ask_side_first[OF i4 b4 5 k4 nxa4 st4]
  have p5: "mPosition s' = mPosition s" using f5(2) p4 by simp
  have nxb5: "\<forall>x\<in>set (mBidPrices s'). \<not> ap 0 < x" using f5(7) f4(5) by simp
  have tv: "total_bid_volume s' = total_bid_volume s4"
    using f5(7) f5(8) by (rule total_bid_volume_cong)
  have sb5: "bp 0 \<noteq> 0 \<longrightarrow> bid_side_settled ?fb s'"
    using f4(6) unfolding bid_side_settled_def tv f5(7) f5(2) .
  from f5(1) p5 nxb5 f5(5) sb5 f5(6) show ?thesis by blast
qed

text \<open>
  C8. When an order book update for the reference instrument has sent no
  cancel command, had a budget of at least twice the ladder depth for its inserts, and its
  ladder prices did not wrap around, then the same snapshot processed again right after it
  sends nothing: the second call returns, and the state it leaves differs from the one it
  found in the message tracker and the clock only.
\<close>

theorem C8_replay_after_an_update_without_cancels:
  assumes "engine_inv s"
    and "unat (mNextMessageId s) + ids_per_event \<le> 2 ^ 32"
    and "priceAdjustment_of (mPosition s) = Some adj"
    and "OrderBookMessageHandler FUTURE sq ap av bp bv s = Some s1"
    and "\<forall>c\<in>set (drop (length (sent s)) (sent s1)). \<not> is_cancel c"
    and "int ids_per_event \<le> snd (GetNonCancelMessagesAllowed (clock s) (mMessageTracker s))"
    and "bp 0 \<noteq> 0 \<longrightarrow>
           NUM_CLONES * TICK_SIZE_IN_CENTS \<le> unat (frontBid_of (bp 0) (ap 0) adj) \<and>
           unat (frontBid_of (bp 0) (ap 0) adj) < 2 ^ 32"
    and "ap 0 \<noteq> 0 \<longrightarrow>
           unat (frontAsk_of (bp 0) (ap 0) adj) + NUM_CLONES * TICK_SIZE_IN_CENTS \<le> 2 ^ 32"
  shows "\<exists>s2 t c. OrderBookMessageHandler FUTURE sq ap av bp bv s1 = Some s2 \<and>
           s2 = s1\<lparr> mMessageTracker := t, clock := c \<rparr> \<and> sent s2 = sent s1"
proof -
  from OrderBookMessageHandler_first[OF assms] have
    i: "engine_inv s1" and p: "mPosition s1 = mPosition s"
    and nxb: "\<forall>x\<in>set (mBidPrices s1). \<not> ap 0 < x"
    and nxa: "\<forall>x\<in>set (mAskPrices s1). \<not> x < bp 0"
    and sb: "bp 0 \<noteq> 0 \<longrightarrow> bid_side_settled (frontBid_of (bp 0) (ap 0) adj) s1"
    and sa: "ap 0 \<noteq> 0 \<longrightarrow> ask_side_settled (frontAsk_of (bp 0) (ap 0) adj) s1"
    by simp_all
  have adj1: "priceAdjustment_of (mPosition s1) = Some adj" using assms(3) p by simp
  from OrderBookMessageHandler_again[where ap = ap and bp = bp and sq = sq and av = av and bv = bv,
         OF i adj1 nxb nxa sb sa]
  obtain t c where
    "OrderBookMessageHandler FUTURE sq ap av bp bv s1 = Some (s1\<lparr> mMessageTracker := t, clock := c \<rparr>)"
    by blast
  moreover have "sent (s1\<lparr> mMessageTracker := t, clock := c \<rparr>) = sent s1" by simp
  ultimately show ?thesis by blast
qed

lemma first_update_sends_the_ladder:
  "map_option sent
     (OrderBookMessageHandler FUTURE 1 (top_only 10100) (top_only 5) (top_only 10000) (top_only 5)
        new_AutoTrader) = Some
     [InsertOrder 1 BUY 9900 10 GOOD_FOR_DAY, InsertOrder 2 BUY 9800 10 GOOD_FOR_DAY,
      InsertOrder 3 BUY 9700 10 GOOD_FOR_DAY, InsertOrder 4 SELL 10200 10 GOOD_FOR_DAY,
      InsertOrder 5 SELL 10300 10 GOOD_FOR_DAY, InsertOrder 6 SELL 10400 10 GOOD_FOR_DAY]"
  by code_simp

lemma first_update_budget:
  "int ids_per_event \<le> snd (GetNonCancelMessagesAllowed (clock new_AutoTrader) (mMessageTracker new_AutoTrader))"
  by code_simp

theorem C8_replay_after_an_update_without_cancels_witness:
  "\<exists>s1 s2. OrderBookMessageHandler FUTURE 1 (top_only 10100) (top_only 5) (top_only 10000) (top_only 5)
              new_AutoTrader = Some s1 \<and>
           (\<forall>c\<in>set (drop (length (sent new_AutoTrader)) (sent s1)). \<not> is_cancel c) \<and>
           OrderBookMessageHandler FUTURE 1 (top_only 10100) (top_only 5) (top_only 10000) (top_only 5)
              s1 = Some s2 \<and>
           sent s2 = sent s1"
proof -
  let ?ap = "top_only 10100" and ?bp = "top_only 10000" and ?v = "top_only 5"
  have idb: "unat (mNextMessageId new_AutoTrader) + ids_per_event \<le> 2 ^ 32"
    by (simp add: new_AutoTrader_fields ids_per_event_def NUM_CLONES_def)
  have adj: "priceAdjustment_of (mPosition new_AutoTrader) = Some 0"
    by (simp add: new_AutoTrader_fields priceAdjustment_0)
  from OrderBookMessageHandler_inv[OF new_AutoTrader_inv idb, of FUTURE 1 ?ap ?v ?bp ?v] adj
  obtain s1 where h: "OrderBookMessageHandler FUTURE 1 ?ap ?v ?bp ?v new_AutoTrader = Some s1"
    by auto
  have snt: "sent s1 = [InsertOrder 1 BUY 9900 10 GOOD_FOR_DAY, InsertOrder 2 BUY 9800 10 GOOD_FOR_DAY,
      InsertOrder 3 BUY 9700 10 GOOD_FOR_DAY, InsertOrder 4 SELL 10200 10 GOOD_FOR_DAY,
      InsertOrder 5 SELL 10300 10 GOOD_FOR_DAY, InsertOrder 6 SELL 10400 10 GOOD_FOR_DAY]"
    using first_update_sends_the_ladder h by simp
  have nc: "\<forall>c\<in>set (drop (length (sent new_AutoTrader)) (sent s1)). \<not> is_cancel c"
    by (simp add: snt new_AutoTrader_fields)
  have fb: "frontBid_of (?bp 0) (?ap 0) 0 = 9900" and fa: "frontAsk_of (?bp 0) (?ap 0) 0 = 10200"
    by (simp_all add: frontBid_of_def frontAsk_of_def top_only_def ADDITIONAL_SPREAD_def const_defs)
  have wb: "?bp 0 \<noteq> 0 \<longrightarrow>
           NUM_CLONES * TICK_SIZE_IN_CENTS \<le> unat (frontBid_of (?bp 0) (?ap 0) 0) \<and>
           unat (frontBid_of (?bp 0) (?ap 0) 0) < 2 ^ 32"
    unfolding fb by (simp add: const_defs)
  have wa: "?ap 0 \<noteq> 0 \<longrightarrow>
           unat (frontAsk_of (?bp 0) (?ap 0) 0) + NUM_CLONES * TICK_SIZE_IN_CENTS \<le> 2 ^ 32"
    unfolding fa by (simp add: const_defs)
  from C8_replay_after_an_update_without_cancels[OF new_AutoTrader_inv idb adj h nc
         first_update_budget wb wa]
  obtain s2 where "OrderBookMessageHandler FUTURE 1 ?ap ?v ?bp ?v s1 = Some s2" "sent s2 = sent s1"
    by blast
  with h nc show ?thesis by blast
qed

text \<open>
  A replay that follows an update with cancels sends them again: after the update
  10000/10100 on a new engine and the update 9000/9100, which has sent 21 commands by then,
  the update 9000/9100 once more sends nine cancels.
\<close>

theorem C8_replay_repeats_the_cancels:
  "map_option (drop 21) (map_option sent
     (Option.bind (Option.bind
        (OrderBookMessageHandler FUTURE 1 (top_only 10100) (top_only 5) (top_only 10000) (top_only 5)
           new_AutoTrader)
        (OrderBookMessageHandler FUTURE 2 (top_only 9100) (top_only 5) (top_only 9000) (top_only 5)))
        (OrderBookMessageHandler FUTURE 2 (top_only 9100) (top_only 5) (top_only 9000) (top_only 5))))
   = Some [CancelOrder 3, CancelOrder 2, CancelOrder 1, CancelOrder 3, CancelOrder 2, CancelOrder 1,
           CancelOrder 4, CancelOrder 5, CancelOrder 6]"
  by code_simp

subsection \<open>The commands of one order book update\<close>


lemma insert_asks_ladder:
  assumes "insert_asks f offset m n s = (s', m', n')"
  shows "\<exists>cs. sent s' = sent s @ cs \<and> (\<forall>c\<in>set cs. ask_ladder_insert f c)"
  using assms
proof (induction "NUM_CLONES - offset" arbitrary: offset m n s)
  case 0
  then have "insert_asks f offset m n s = (s, m, n)" by (intro insert_asks_stop) simp
  with 0 show ?case by simp
next
  case (Suc j)
  have j: "j = NUM_CLONES - (offset + 1)" using Suc.hyps(2) by simp
  show ?case
  proof (cases rule: insert_asks_cases[of offset m n f s])
    case stop
    with Suc.prems show ?thesis by simp
  next
    case skip
    have e: "insert_asks f (offset + 1) m n s = (s', m', n')" using skip(5) Suc.prems by simp
    from Suc.hyps(1)[OF j e] show ?thesis .
  next
    case new
    let ?s1 = "place_ask (ask_level f offset) m s"
    let ?c = "InsertOrder (to_uint (mNextMessageId s)) SELL (ask_level f offset) (new_order_volume m) GOOD_FOR_DAY"
    have e: "insert_asks f (offset + 1) (m - new_order_volume m) (n - 1) ?s1 = (s', m', n')"
      using new(5) Suc.prems by simp
    from Suc.hyps(1)[OF j e] obtain cs where
      1: "sent s' = sent ?s1 @ cs" "\<forall>c\<in>set cs. ask_ladder_insert f c" by blast
    have "sent s' = sent s @ (?c # cs)" using 1(1) by simp
    moreover have "ask_ladder_insert f ?c" using new(1) by simp
    then have "\<forall>c\<in>set (?c # cs). ask_ladder_insert f c" using 1(2) by simp
    ultimately show ?thesis by blast
  qed
qed




lemma adjust_ask_side_commands:
  assumes inv: "engine_inv s" and r: "adjust_ask_side b a adj n s = Some (s', n')"
  shows "\<exists>ins. sent s' = sent s @ (if a = 0 then [] else band_ask_cancels (frontAsk_of b a adj) s @ ins) \<and>
           (\<forall>c\<in>set ins. ask_ladder_insert (frontAsk_of b a adj) c)"
proof (cases "a = 0")
  case True
  with r have "s' = s" by (simp add: adjust_ask_side_def)
  with True show ?thesis by (intro exI[of _ "[]"]) simp
next
  case False
  let ?f = "frontAsk_of b a adj"
  from adjust_ask_side_run[OF inv False, of b adj n] r obtain t c m' where
    ins: "insert_asks ?f 0
             ((word_of_int POSITION_LIMIT :: long) + mPosition s - total_ask_volume s) n
             (s\<lparr> mMessageTracker := t, clock := c, sent := sent s @ band_ask_cancels ?f s \<rparr>) = (s', m', n')"
    by auto
  from insert_asks_ladder[OF ins] obtain cs where
    cs: "sent s' = sent s @ band_ask_cancels ?f s @ cs" "\<forall>c\<in>set cs. ask_ladder_insert ?f c"
    by auto
  with False show ?thesis by auto
qed


subsection \<open>The skew in the front prices\<close>







subsection \<open>An empty side of the reference book\<close>

lemma id_at_ask_inj:
  assumes inv: "engine_inv s" and x: "x \<in> set (mAskPrices s)" and y: "y \<in> set (mAskPrices s)"
    and e: "id_at (mAskToOrder s) (heap s) x = id_at (mAskToOrder s) (heap s) y"
  shows "x = y"
proof -
  from inv have rc: "registry_consistent s" by (simp add: engine_inv_def)
  from order_at_ask[OF rc x] obtain p ord where
    1: "heap s p = Some ord" "price ord = x" "mAskOrderIdToOrder s (orderId ord) = Some p"
       "order_at (mAskToOrder s) (heap s) x = Some ord"
    by blast
  from order_at_ask[OF rc y] obtain q ord' where
    2: "heap s q = Some ord'" "price ord' = y" "mAskOrderIdToOrder s (orderId ord') = Some q"
       "order_at (mAskToOrder s) (heap s) y = Some ord'"
    by blast
  from e 1(4) 2(4) have "orderId ord = orderId ord'" by (simp add: id_at_def)
  with 1(3) 2(3) have "p = q" by simp
  with 1(1) 2(1) have "ord = ord'" by simp
  with 1(2) 2(2) show ?thesis by simp
qed

lemma id_at_ask_bid_ne:
  assumes inv: "engine_inv s" and x: "x \<in> set (mAskPrices s)" and y: "y \<in> set (mBidPrices s)"
  shows "id_at (mAskToOrder s) (heap s) x \<noteq> id_at (mBidToOrder s) (heap s) y"
proof -
  from inv have rc: "registry_consistent s"
    and dj: "dom (mBidOrderIdToOrder s) \<inter> dom (mAskOrderIdToOrder s) = {}"
    by (simp_all add: engine_inv_def)
  from order_at_ask[OF rc x] obtain p ord where
    1: "mAskOrderIdToOrder s (orderId ord) = Some p" "order_at (mAskToOrder s) (heap s) x = Some ord"
    by blast
  from order_at_bid[OF rc y] obtain q ord' where
    2: "mBidOrderIdToOrder s (orderId ord') = Some q" "order_at (mBidToOrder s) (heap s) y = Some ord'"
    by blast
  from 1(1) 2(1) dj have "orderId ord \<noteq> orderId ord'" by auto
  with 1(2) 2(2) show ?thesis by (simp add: id_at_def)
qed

text \<open>With a best bid of zero the bid side is skipped, and the update sends what follows.\<close>

lemma OrderBookMessageHandler_no_best_bid:
  assumes inv: "engine_inv s" and b: "bp 0 = 0"
    and h: "OrderBookMessageHandler FUTURE sq ap av bp bv s = Some s'"
  shows "\<exists>adj ins. priceAdjustment_of (mPosition s) = Some adj \<and>
           sent s' = sent s @ arb_bid_cancels (ap 0) s @
              (if ap 0 = 0 then [] else band_ask_cancels (frontAsk_of (bp 0) (ap 0) adj) s @ ins) \<and>
           (\<forall>c\<in>set ins. is_insert c)"
proof -
  from arbitrage_bids_run[OF inv, of "ap 0"] obtain t1 c1 where
    1: "cancel_arbitragable_bids (ap 0) (mBidPrices s) s =
          Some (s\<lparr> mMessageTracker := t1, clock := c1, sent := sent s @ arb_bid_cancels (ap 0) s \<rparr>)"
    by blast
  let ?s1 = "s\<lparr> mMessageTracker := t1, clock := c1, sent := sent s @ arb_bid_cancels (ap 0) s \<rparr>"
  have 2: "cancel_arbitragable_asks (bp 0) (mAskPrices ?s1) ?s1 = Some ?s1"
    using b by (intro arbitrage_asks_none) simp
  from h 1 2 obtain adj where adj: "priceAdjustment_of (mPosition s) = Some adj"
    by (auto simp: OrderBookMessageHandler_def Let_def split: option.splits)
  obtain t3 k where 3: "GetNonCancelMessagesAllowed (clock ?s1) (mMessageTracker ?s1) = (t3, k)"
    by (cases "GetNonCancelMessagesAllowed (clock ?s1) (mMessageTracker ?s1)")
  let ?s3 = "?s1\<lparr> mMessageTracker := t3 \<rparr>"
  have 4: "adjust_bid_side (bp 0) (ap 0) adj k ?s3 = Some (?s3, k)"
    using b by (simp add: adjust_bid_side_def)
  from h 1 2 3 4 adj obtain k5 where
    5: "adjust_ask_side (bp 0) (ap 0) adj k ?s3 = Some (s', k5)"
    by (auto simp: OrderBookMessageHandler_def Let_def split: option.splits prod.splits)
  have i3: "engine_inv ?s3" using inv by simp
  from adjust_ask_side_commands[OF i3 5] obtain ins where
    ca: "sent s' = sent ?s3 @ (if ap 0 = 0 then [] else band_ask_cancels (frontAsk_of (bp 0) (ap 0) adj) ?s3 @ ins)"
      "\<forall>c\<in>set ins. ask_ladder_insert (frontAsk_of (bp 0) (ap 0) adj) c"
    by blast
  have "is_insert c" if "ask_ladder_insert (frontAsk_of (bp 0) (ap 0) adj) c" for c
    using that by (cases c) simp_all
  with ca(2) have "\<forall>c\<in>set ins. is_insert c" by blast
  moreover have "sent s' = sent s @ arb_bid_cancels (ap 0) s @
              (if ap 0 = 0 then [] else band_ask_cancels (frontAsk_of (bp 0) (ap 0) adj) s @ ins)"
    using ca(1) by simp
  ultimately show ?thesis using adj by blast
qed

text \<open>
  C10. An order book update for the reference instrument that reports a best ask of zero
  sends, before anything else, one cancel for every order of the bid registry with a price
  above zero, in ascending order of price. An update that reports a best bid of zero sends
  the arbitrage cancels of the bids and then only what the ask side of the ladder sends,
  the cancels of the asks outside the band of the front ask and inserts: an ask inside
  the band, and every ask when the best ask is zero as well, is sent no cancel. The update
  returns where the price adjustment is defined and order ids are left. The two arbitrage
  loops by themselves: with a best ask of zero the loop over the bids sends these cancels
  and changes nothing else but the message tracker and the clock; with a best bid of zero
  the loop over the asks sends nothing and leaves the state as it is.
\<close>

theorem C10_zero_best_ask_cancels_every_bid:
  assumes "engine_inv s"
  shows
   "(unat (mNextMessageId s) + ids_per_event \<le> 2 ^ 32 \<and> priceAdjustment_of (mPosition s) \<noteq> None \<longrightarrow>
       OrderBookMessageHandler FUTURE sq ap av bp bv s \<noteq> None) \<and>
    (\<forall>s'. OrderBookMessageHandler FUTURE sq ap av bp bv s = Some s' \<longrightarrow>
       (ap 0 = 0 \<longrightarrow>
          (\<exists>rest. sent s' = sent s @ map (\<lambda>x. CancelOrder (id_at (mBidToOrder s) (heap s) x))
                                         (filter (\<lambda>x. 0 < x) (mBidPrices s)) @ rest)) \<and>
       (bp 0 = 0 \<longrightarrow>
          (\<exists>a ins. priceAdjustment_of (mPosition s) = Some a \<and>
             sent s' = sent s @ arb_bid_cancels (ap 0) s @
                (if ap 0 = 0 then [] else band_ask_cancels (frontAsk_of (bp 0) (ap 0) a) s @ ins) \<and>
             (\<forall>c\<in>set ins. is_insert c) \<and>
             (\<forall>x\<in>set (mAskPrices s). ap 0 = 0 \<or> \<not> ask_out_of_band (frontAsk_of (bp 0) (ap 0) a) x \<longrightarrow>
                CancelOrder (id_at (mAskToOrder s) (heap s) x) \<notin> set (drop (length (sent s)) (sent s')))))) \<and>
    (\<exists>t c. cancel_arbitragable_bids 0 (mBidPrices s) s =
            Some (s\<lparr> mMessageTracker := t, clock := c,
                     sent := sent s @ map (\<lambda>x. CancelOrder (id_at (mBidToOrder s) (heap s) x))
                                        (filter (\<lambda>x. 0 < x) (mBidPrices s)) \<rparr>)) \<and>
    cancel_arbitragable_asks 0 (mAskPrices s) s = Some s"
proof (intro conjI allI impI)
  assume "unat (mNextMessageId s) + ids_per_event \<le> 2 ^ 32 \<and> priceAdjustment_of (mPosition s) \<noteq> None"
  with OrderBookMessageHandler_inv[OF assms, of FUTURE sq ap av bp bv]
  show "OrderBookMessageHandler FUTURE sq ap av bp bv s \<noteq> None" by auto
next
  fix s' assume h: "OrderBookMessageHandler FUTURE sq ap av bp bv s = Some s'" and a0: "ap 0 = 0"
  from OrderBookMessageHandler_sent[OF assms h] obtain rest where
    "sent s' = sent s @ arb_bid_cancels (ap 0) s @ arb_ask_cancels (bp 0) s @ rest" by blast
  then have "sent s' = sent s @ map (\<lambda>x. CancelOrder (id_at (mBidToOrder s) (heap s) x))
                                         (filter (\<lambda>x. 0 < x) (mBidPrices s)) @ (arb_ask_cancels (bp 0) s @ rest)"
    using a0 by (simp add: arb_bid_cancels_def)
  then show "\<exists>rest. sent s' = sent s @ map (\<lambda>x. CancelOrder (id_at (mBidToOrder s) (heap s) x))
                                         (filter (\<lambda>x. 0 < x) (mBidPrices s)) @ rest" by blast
next
  fix s' assume h: "OrderBookMessageHandler FUTURE sq ap av bp bv s = Some s'" and b0: "bp 0 = 0"
  from OrderBookMessageHandler_no_best_bid[OF assms b0 h] obtain a ins where
    a: "priceAdjustment_of (mPosition s) = Some a"
    and snt: "sent s' = sent s @ arb_bid_cancels (ap 0) s @
                (if ap 0 = 0 then [] else band_ask_cancels (frontAsk_of (bp 0) (ap 0) a) s @ ins)"
    and ins: "\<forall>c\<in>set ins. is_insert c"
    by blast
  let ?fa = "frontAsk_of (bp 0) (ap 0) a"
  have quiet: "CancelOrder (id_at (mAskToOrder s) (heap s) x) \<notin> set (drop (length (sent s)) (sent s'))"
    if x: "x \<in> set (mAskPrices s)" and c: "ap 0 = 0 \<or> \<not> ask_out_of_band ?fa x" for x
  proof
    let ?c = "CancelOrder (id_at (mAskToOrder s) (heap s) x)"
    assume "?c \<in> set (drop (length (sent s)) (sent s'))"
    with snt have "?c \<in> set (arb_bid_cancels (ap 0) s) \<or>
        (ap 0 \<noteq> 0 \<and> (?c \<in> set (band_ask_cancels ?fa s) \<or> ?c \<in> set ins))"
      by (auto split: if_splits)
    then show False
    proof (elim disjE conjE)
      assume "?c \<in> set (arb_bid_cancels (ap 0) s)"
      then obtain y where "y \<in> set (mBidPrices s)"
        "id_at (mAskToOrder s) (heap s) x = id_at (mBidToOrder s) (heap s) y"
        by (auto simp: arb_bid_cancels_def)
      with id_at_ask_bid_ne[OF assms x] show False by blast
    next
      assume n: "ap 0 \<noteq> 0" and "?c \<in> set (band_ask_cancels ?fa s)"
      then obtain y where y: "y \<in> set (mAskPrices s)" "ask_out_of_band ?fa y"
        "id_at (mAskToOrder s) (heap s) x = id_at (mAskToOrder s) (heap s) y"
        by (auto simp: band_ask_cancels_def)
      from id_at_ask_inj[OF assms x y(1) y(3)] y(2) c n show False by simp
    next
      assume "?c \<in> set ins"
      with ins show False by auto
    qed
  qed
  from a snt ins quiet
  show "\<exists>a ins. priceAdjustment_of (mPosition s) = Some a \<and>
             sent s' = sent s @ arb_bid_cancels (ap 0) s @
                (if ap 0 = 0 then [] else band_ask_cancels (frontAsk_of (bp 0) (ap 0) a) s @ ins) \<and>
             (\<forall>c\<in>set ins. is_insert c) \<and>
             (\<forall>x\<in>set (mAskPrices s). ap 0 = 0 \<or> \<not> ask_out_of_band (frontAsk_of (bp 0) (ap 0) a) x \<longrightarrow>
                CancelOrder (id_at (mAskToOrder s) (heap s) x) \<notin> set (drop (length (sent s)) (sent s')))"
    by (intro exI[of _ a] exI[of _ ins]) blast
next
  show "\<exists>t c. cancel_arbitragable_bids 0 (mBidPrices s) s =
            Some (s\<lparr> mMessageTracker := t, clock := c,
                     sent := sent s @ map (\<lambda>x. CancelOrder (id_at (mBidToOrder s) (heap s) x))
                                        (filter (\<lambda>x. 0 < x) (mBidPrices s)) \<rparr>)"
    using arbitrage_bids_run[OF assms, of 0] by (simp add: arb_bid_cancels_def)
next
  show "cancel_arbitragable_asks 0 (mAskPrices s) s = Some s"
    using arbitrage_asks_none[of "mAskPrices s" 0 s] by simp
qed

theorem C10_zero_best_ask_cancels_every_bid_witness:
  "engine_inv one_bid \<and>
   (\<exists>s' rest. OrderBookMessageHandler FUTURE 2 (top_only 0) (top_only 0) (top_only 9000) (top_only 5)
                 one_bid = Some s' \<and> sent s' = CancelOrder 1 # rest) \<and>
   (\<exists>t c. cancel_arbitragable_bids 0 [9900] one_bid =
            Some (one_bid\<lparr> mMessageTracker := t, clock := c, sent := [CancelOrder 1] \<rparr>)) \<and>
   engine_inv one_ask \<and>
   (\<exists>s'. OrderBookMessageHandler FUTURE 2 (top_only 10100) (top_only 5) (top_only 0) (top_only 0)
            one_ask = Some s' \<and> CancelOrder 1 \<notin> set (sent s')) \<and>
   cancel_arbitragable_asks 0 [10200] one_ask = Some one_ask"
proof -
  let ?v = "top_only 5" and ?z = "top_only 0"
  note tb = C10_zero_best_ask_cancels_every_bid[OF one_bid_inv, of 2 ?z ?z "top_only 9000" ?v]
  note ta = C10_zero_best_ask_cancels_every_bid[OF one_ask_inv, of 2 "top_only 10100" ?v ?z ?z]
  have pb: "unat (mNextMessageId one_bid) + ids_per_event \<le> 2 ^ 32 \<and>
            priceAdjustment_of (mPosition one_bid) \<noteq> None"
    by (simp add: one_bid_fields priceAdjustment_0 ids_per_event_def NUM_CLONES_def)
  have pa: "unat (mNextMessageId one_ask) + ids_per_event \<le> 2 ^ 32 \<and>
            priceAdjustment_of (mPosition one_ask) \<noteq> None"
    by (simp add: one_ask_fields priceAdjustment_0 ids_per_event_def NUM_CLONES_def)
  from tb pb obtain s1 where
    h1: "OrderBookMessageHandler FUTURE 2 ?z ?z (top_only 9000) ?v one_bid = Some s1" by blast
  from ta pa obtain s2 where
    h2: "OrderBookMessageHandler FUTURE 2 (top_only 10100) ?v ?z ?z one_ask = Some s2" by blast
  from tb h1 have 1: "\<exists>rest. sent s1 = CancelOrder 1 # rest"
    by (simp add: one_bid_fields top_only_def id_at_def order_at_def deref_def)
  from tb have 2: "\<exists>t c. cancel_arbitragable_bids 0 [9900] one_bid =
            Some (one_bid\<lparr> mMessageTracker := t, clock := c, sent := [CancelOrder 1] \<rparr>)"
    by (simp add: one_bid_fields id_at_def order_at_def deref_def)
  have fa: "frontAsk_of 0 10100 0 = 10200"
    by (simp add: frontAsk_of_def ADDITIONAL_SPREAD_def TICK_SIZE_IN_CENTS_def)
  have band: "\<not> ask_out_of_band 10200 10200"
    by (simp add: ask_out_of_band_def NUM_CLONES_def TICK_SIZE_IN_CENTS_def)
  from ta h2 have 3: "CancelOrder 1 \<notin> set (sent s2)"
    by (auto simp: one_ask_fields top_only_def id_at_def order_at_def deref_def
        priceAdjustment_0 fa band)
  from ta have 4: "cancel_arbitragable_asks 0 [10200] one_ask = Some one_ask"
    by (simp add: one_ask_fields)
  from 1 2 3 4 h1 h2 one_bid_inv one_ask_inv show ?thesis by blast
qed

end
